theory Spec2Isabelle
  imports Complex_Main "HOL-Library.Multiset"
begin

section \<open>JavaScript values used by the library\<close>

text \<open>
  A JavaScript number is modelled as a real number, one of the two infinities, or NaN.
  Rounding, overflow and the sign of zero of binary64 arithmetic are not modelled. NaN is
  kept because the code produces it (\<open>0 / 0\<close>, arithmetic on \<open>undefined\<close>) and because
  every comparison with NaN is false.
\<close>

datatype number = Num real | PInf | NInf | NaN

fun jneg :: "number \<Rightarrow> number" where
  "jneg (Num a) = Num (- a)"
| "jneg PInf = NInf"
| "jneg NInf = PInf"
| "jneg NaN = NaN"

fun jadd :: "number \<Rightarrow> number \<Rightarrow> number" where
  "jadd (Num a) (Num b) = Num (a + b)"
| "jadd NaN _ = NaN"
| "jadd _ NaN = NaN"
| "jadd PInf NInf = NaN"
| "jadd NInf PInf = NaN"
| "jadd PInf _ = PInf"
| "jadd _ PInf = PInf"
| "jadd NInf _ = NInf"
| "jadd _ NInf = NInf"

definition jsub :: "number \<Rightarrow> number \<Rightarrow> number" where
  "jsub a b = jadd a (jneg b)"

text \<open>The sign of a number that is not NaN: \<open>-1\<close>, \<open>0\<close> or \<open>1\<close>.\<close>

fun jsign :: "number \<Rightarrow> int" where
  "jsign (Num a) = (if a < 0 then - 1 else if a = 0 then 0 else 1)"
| "jsign PInf = 1"
| "jsign NInf = - 1"
| "jsign NaN = 0"

definition signed_inf :: "int \<Rightarrow> number" where
  "signed_inf s = (if s < 0 then NInf else if s = 0 then NaN else PInf)"

fun jmul :: "number \<Rightarrow> number \<Rightarrow> number" where
  "jmul (Num a) (Num b) = Num (a * b)"
| "jmul NaN _ = NaN"
| "jmul _ NaN = NaN"
| "jmul a b = signed_inf (jsign a * jsign b)"

fun jsqrt :: "number \<Rightarrow> number" where
  "jsqrt (Num a) = (if a < 0 then NaN else Num (sqrt a))"
| "jsqrt PInf = PInf"
| "jsqrt NInf = NaN"
| "jsqrt NaN = NaN"

fun jdiv :: "number \<Rightarrow> number \<Rightarrow> number" where
  "jdiv (Num a) (Num b) = (if b = 0 then signed_inf (jsign (Num a)) else Num (a / b))"
| "jdiv NaN _ = NaN"
| "jdiv _ NaN = NaN"
| "jdiv (Num a) _ = Num 0"
| "jdiv a (Num b) = signed_inf (jsign a * (if b < 0 then - 1 else 1))"
| "jdiv _ _ = NaN"

text \<open>The comparison \<open>a <= b\<close> of two numbers; false as soon as one of them is NaN.\<close>

fun jle :: "number \<Rightarrow> number \<Rightarrow> bool" where
  "jle (Num a) (Num b) = (a \<le> b)"
| "jle NaN _ = False"
| "jle _ NaN = False"
| "jle NInf _ = True"
| "jle _ PInf = True"
| "jle _ _ = False"

text \<open>
  The errors a call can end with: the three \<open>Error\<close>s the library throws itself, the
  \<open>TypeError\<close> of the language (calling \<open>null\<close>, reading a property of \<open>null\<close>, spreading
  \<open>undefined\<close>), and a rejection by the embedding provider.
\<close>

datatype error = ModelNotLoaded | InvalidCacheEntry | InvalidK | TypeError | ProviderError

section \<open>Cosine similarity\<close>

text \<open>Reading \<open>e[i]\<close>: past the end the value is \<open>undefined\<close>, which arithmetic turns into NaN.\<close>

definition idx :: "real list \<Rightarrow> nat \<Rightarrow> number" where
  "idx e i = (if i < length e then Num (e ! i) else NaN)"

text \<open>
  The loop of \<open>calculateCosineSimilarity\<close>: \<open>i\<close> runs up to the length of the first
  embedding, accumulating the dot product and the two squared magnitudes.
\<close>

function cosine_loop ::
  "real list \<Rightarrow> real list \<Rightarrow> nat \<Rightarrow> number \<times> number \<times> number \<Rightarrow> number \<times> number \<times> number" where
  "cosine_loop e1 e2 i (dotProduct, magnitude1, magnitude2) =
     (if i < length e1
      then cosine_loop e1 e2 (i + 1)
             (jadd dotProduct (jmul (idx e1 i) (idx e2 i)),
              jadd magnitude1 (jmul (idx e1 i) (idx e1 i)),
              jadd magnitude2 (jmul (idx e2 i) (idx e2 i)))
      else (dotProduct, magnitude1, magnitude2))"
  by pat_completeness auto
termination
  by (relation "measure (\<lambda>(e1, e2, i, acc). length e1 - i)") auto

text \<open>
  \<open>calculateCosineSimilarity(embedding1, embedding2)\<close>. An embedding that is \<open>null\<close> is
  \<open>None\<close>: reading \<open>embedding1.length\<close> of \<open>null\<close> throws, and so does \<open>embedding2[i]\<close> in
  the first iteration.
\<close>

definition calculateCosineSimilarity :: "real list option \<Rightarrow> real list option \<Rightarrow> error + number" where
  "calculateCosineSimilarity embedding1 embedding2 =
     (case embedding1 of
        None \<Rightarrow> Inl TypeError
      | Some e1 \<Rightarrow>
          (case embedding2 of
             None \<Rightarrow>
               if 0 < length e1 then Inl TypeError
               else Inr (jdiv (Num 0) (jmul (jsqrt (Num 0)) (jsqrt (Num 0))))
           | Some e2 \<Rightarrow>
               (case cosine_loop e1 e2 0 (Num 0, Num 0, Num 0) of
                  (dotProduct, magnitude1, magnitude2) \<Rightarrow>
                    Inr (jdiv dotProduct (jmul (jsqrt magnitude1) (jsqrt magnitude2))))))"

section \<open>Values, the store and the provider\<close>

text \<open>
  The values that occur in the arrays handed to and returned by the library: a string, a
  cache entry \<open>{sentenceTwo, embedding}\<close> (either property may be absent), and a result
  \<open>{sentenceTwo, alike}\<close>.
\<close>

datatype jsval = Str string | Entry "jsval option" "real list option" | Scored jsval number

text \<open>Property reads; \<open>None\<close> is \<open>undefined\<close>. A string has none of the properties.\<close>

fun prop_sentenceTwo :: "jsval \<Rightarrow> jsval option" where
  "prop_sentenceTwo (Str s) = None"
| "prop_sentenceTwo (Entry t e) = t"
| "prop_sentenceTwo (Scored t a) = Some t"

fun prop_embedding :: "jsval \<Rightarrow> real list option" where
  "prop_embedding (Str s) = None"
| "prop_embedding (Entry t e) = e"
| "prop_embedding (Scored t a) = None"

text \<open>\<open>x.alike\<close> as an operand of a subtraction: \<open>undefined\<close> becomes NaN.\<close>

fun prop_alike :: "jsval \<Rightarrow> number" where
  "prop_alike (Scored t a) = a"
| "prop_alike _ = NaN"

text \<open>Truthiness: the empty string and \<open>undefined\<close> are falsy, objects and arrays are truthy.\<close>

fun truthy :: "jsval \<Rightarrow> bool" where
  "truthy (Str s) = (s \<noteq> [])"
| "truthy _ = True"

fun truthy_opt :: "jsval option \<Rightarrow> bool" where
  "truthy_opt None = False"
| "truthy_opt (Some v) = truthy v"

text \<open>
  The embedding provider is a black box: given the value passed to it, it returns the data
  of the embedding or rejects (\<open>None\<close>). The global state is the variable \<open>model\<close>
  (\<open>null\<close> until \<open>loadModel\<close> has succeeded), the store of array objects (an array's
  identity is its index in \<open>arrays\<close>), and a log of what was done: each call of the
  provider and each similarity computed.
\<close>

type_synonym provider = "jsval \<Rightarrow> real list option"

datatype event = Embed jsval | Score

record state =
  model :: "provider option"
  arrays :: "jsval list list"
  trace :: "event list"

type_synonym 'a io = "state \<Rightarrow> (error + 'a) \<times> state"

definition unit :: "'a \<Rightarrow> 'a io" where
  "unit x = (\<lambda>s. (Inr x, s))"

definition throw :: "error \<Rightarrow> 'a io" where
  "throw e = (\<lambda>s. (Inl e, s))"

definition bind :: "'a io \<Rightarrow> ('a \<Rightarrow> 'b io) \<Rightarrow> 'b io" where
  "bind m f = (\<lambda>s. case m s of (Inl e, s') \<Rightarrow> (Inl e, s') | (Inr x, s') \<Rightarrow> f x s')"

text \<open>\<open>[...xs]\<close> and array literals: a new array object, at the next free index of the store.\<close>

definition alloc :: "jsval list \<Rightarrow> nat io" where
  "alloc xs = (\<lambda>s. (Inr (length (arrays s)), s\<lparr>arrays := arrays s @ [xs]\<rparr>))"

text \<open>
  \<open>a[i] = v\<close>. At \<open>i = a.length\<close> the array grows by one; the code never writes further
  out than that.
\<close>

definition array_put :: "jsval list \<Rightarrow> nat \<Rightarrow> jsval \<Rightarrow> jsval list" where
  "array_put xs i v = (if i = length xs then xs @ [v] else xs[i := v])"

definition store_put :: "nat \<Rightarrow> nat \<Rightarrow> jsval \<Rightarrow> state \<Rightarrow> state" where
  "store_put a i v s = s\<lparr>arrays := (arrays s)[a := array_put (arrays s ! a) i v]\<rparr>"

text \<open>
  \<open>Array.from((await model(text, {pooling: "mean", normalize: true})).data)\<close>. Calling
  \<open>model\<close> while it is \<open>null\<close> is a \<open>TypeError\<close> and reaches no provider.
\<close>

definition call_model :: "jsval \<Rightarrow> real list io" where
  "call_model text = (\<lambda>s.
     case model s of
       None \<Rightarrow> (Inl TypeError, s)
     | Some p \<Rightarrow>
         (case p text of
            None \<Rightarrow> (Inl ProviderError, s\<lparr>trace := trace s @ [Embed text]\<rparr>)
          | Some v \<Rightarrow> (Inr v, s\<lparr>trace := trace s @ [Embed text]\<rparr>)))"

definition modelNotLoadedErrorMessage :: "'a io" where
  "modelNotLoadedErrorMessage = throw ModelNotLoaded"

section \<open>classify\<close>

record candidate =
  sentenceTwo :: jsval
  alike :: number

record classified = candidate +
  sentenceOne :: string
  embedding1Cache :: "real list option"

text \<open>The call of \<open>calculateCosineSimilarity\<close> inside \<open>classify\<close>, logged.\<close>

definition similarity_of :: "real list option \<Rightarrow> real list option \<Rightarrow> number io" where
  "similarity_of embedding1 embedding2 = (\<lambda>s.
     case calculateCosineSimilarity embedding1 embedding2 of
       Inl e \<Rightarrow> (Inl e, s)
     | Inr v \<Rightarrow> (Inr v, s\<lparr>trace := trace s @ [Score]\<rparr>))"

definition classify ::
  "string \<Rightarrow> jsval \<Rightarrow> real list option \<Rightarrow> bool \<Rightarrow> real list option \<Rightarrow> bool \<Rightarrow> classified io" where
  "classify sentenceOne' sentenceTwo' embedding1Cache' doesCache1Exist embedding2Cache doesCache2Exist =
     (\<lambda>s.
        if \<not> doesCache2Exist \<and> model s = None then modelNotLoadedErrorMessage s
        else
          bind (if doesCache1Exist then unit embedding1Cache'
                else bind (call_model (Str sentenceOne')) (\<lambda>v. unit (Some v)))
            (\<lambda>embedding1.
               bind (if doesCache2Exist then unit embedding2Cache
                     else bind (call_model sentenceTwo') (\<lambda>v. unit (Some v)))
                 (\<lambda>embedding2.
                    bind (similarity_of embedding1 embedding2)
                      (\<lambda>similarity.
                         unit \<lparr>sentenceTwo = sentenceTwo', alike = similarity,
                               sentenceOne = sentenceOne', embedding1Cache = embedding1\<rparr>))) s)"

lemma classify_arrays: "classify s1 s2 c1 d1 c2 d2 s = (r, s') \<Longrightarrow> arrays s' = arrays s"
  by (auto simp: classify_def modelNotLoadedErrorMessage_def throw_def bind_def unit_def
      call_model_def similarity_of_def split: if_splits option.splits sum.splits prod.splits)

lemma length_store_put: "length (arrays (store_put a i v s) ! a) = length (arrays s ! a) \<or> i = length (arrays s ! a)"
  by (cases "a < length (arrays s)") (simp_all add: store_put_def array_put_def list_update_beyond)

section \<open>compareSentenceToArray\<close>

text \<open>\<open>array[i].sentenceTwo ? array[i].sentenceTwo : array[i]\<close>\<close>

definition text_of :: "jsval \<Rightarrow> jsval" where
  "text_of x = (case prop_sentenceTwo x of
                  None \<Rightarrow> x
                | Some t \<Rightarrow> if truthy t then t else x)"

text \<open>
  The loop of \<open>compareSentenceToArray\<close> over the copy \<open>array\<close>; \<open>cache\<close> is \<open>null\<close> until
  the first iteration has embedded the sentence.
\<close>

function compare_loop :: "string \<Rightarrow> bool \<Rightarrow> nat \<Rightarrow> nat \<Rightarrow> real list option \<Rightarrow> unit io" where
  "compare_loop sentence doesCache2Exist array i cache s =
     (if i < length (arrays s ! array)
      then
        (case classify sentence (text_of (arrays s ! array ! i)) cache (i \<noteq> 0)
                (prop_embedding (arrays s ! array ! i)) doesCache2Exist s of
           (Inl e, s') \<Rightarrow> (Inl e, s')
         | (Inr r, s') \<Rightarrow>
             compare_loop sentence doesCache2Exist array (i + 1)
               (if i = 0 then embedding1Cache r else cache)
               (store_put array i (Scored (sentenceTwo r) (alike r)) s'))
      else (Inr (), s))"
  by pat_completeness auto
termination
proof (relation "measure (\<lambda>(sentence, d, array, i, cache, s). length (arrays s ! array) - i)", goal_cases)
  case 1
  show ?case by simp
next
  case (2 sentence d array i cache s x s' r)
  from 2(2) [symmetric] have same: "arrays s' = arrays s"
    by (rule classify_arrays)
  from length_store_put [of array i "Scored (sentenceTwo r) (alike r)" s'] 2(1) same
  have "length (arrays (store_put array i (Scored (sentenceTwo r) (alike r)) s') ! array)
        = length (arrays s ! array)"
    by auto
  with 2(1) show ?case by simp
qed

text \<open>
  \<open>compareSentenceToArray(sentence, array, doesCache2Exist)\<close>. The parameter \<open>array\<close>
  is the identity of the caller's array; the result \<open>{sentenceOne, array}\<close> is the pair of
  the sentence and the identity of the array returned.
\<close>

definition compareSentenceToArray :: "string \<Rightarrow> nat \<Rightarrow> bool \<Rightarrow> (string \<times> nat) io" where
  "compareSentenceToArray sentence array doesCache2Exist = (\<lambda>s.
     if \<not> doesCache2Exist \<and> model s = None then modelNotLoadedErrorMessage s
     else
       bind (alloc (arrays s ! array))
         (\<lambda>copy. bind (compare_loop sentence doesCache2Exist copy 0 None)
            (\<lambda>_. unit (sentence, copy))) s)"

section \<open>Sorting and the other array operations\<close>

text \<open>
  \<open>Array.prototype.sort(comparefn)\<close> belongs to the language, not to the library. It
  orders by the comparator and is stable; a comparator result that is NaN counts as \<open>0\<close>.
  It is modelled as the insertion sort that puts each element behind every element that
  need not follow it. With a comparator that is not consistent (scores that are NaN) the
  language leaves the order to the implementation, and nothing is claimed for that case.
\<close>

fun positive :: "number \<Rightarrow> bool" where
  "positive (Num a) = (0 < a)"
| "positive PInf = True"
| "positive _ = False"

fun sort_insert :: "('a \<Rightarrow> 'a \<Rightarrow> number) \<Rightarrow> 'a \<Rightarrow> 'a list \<Rightarrow> 'a list" where
  "sort_insert comparefn x [] = [x]"
| "sort_insert comparefn x (y # ys) =
     (if positive (comparefn y x) then x # y # ys else y # sort_insert comparefn x ys)"

definition array_sort :: "('a \<Rightarrow> 'a \<Rightarrow> number) \<Rightarrow> 'a list \<Rightarrow> 'a list" where
  "array_sort comparefn xs = foldl (\<lambda>sorted x. sort_insert comparefn x sorted) [] xs"

text \<open>\<open>(a, b) => b.alike - a.alike\<close>\<close>

definition by_alike :: "jsval \<Rightarrow> jsval \<Rightarrow> number" where
  "by_alike a b = jsub (prop_alike b) (prop_alike a)"

text \<open>\<open>returnedArray.sort(...)\<close> sorts the array object itself.\<close>

definition sort_in_place :: "nat \<Rightarrow> unit io" where
  "sort_in_place a = (\<lambda>s. (Inr (), s\<lparr>arrays := (arrays s)[a := array_sort by_alike (arrays s ! a)]\<rparr>))"

definition arrayInOrder :: "string \<Rightarrow> nat \<Rightarrow> (string \<times> nat) io" where
  "arrayInOrder sentence array = (\<lambda>s.
     if model s = None then modelNotLoadedErrorMessage s
     else
       bind (alloc (arrays s ! array))
         (\<lambda>copy. bind (compareSentenceToArray sentence copy False)
            (\<lambda>(sentenceOne, returnedArray).
               bind (sort_in_place returnedArray)
                 (\<lambda>_. unit (sentenceOne, returnedArray)))) s)"

definition compareTwoSentences :: "string \<Rightarrow> string \<Rightarrow> (string \<times> string \<times> number) io" where
  "compareTwoSentences sentenceOne' sentenceTwo' = (\<lambda>s.
     if model s = None then modelNotLoadedErrorMessage s
     else
       bind (classify sentenceOne' (Str sentenceTwo') None False None False)
         (\<lambda>r. unit (sentenceOne', sentenceTwo', alike r)) s)"

lemma call_model_arrays: "call_model x s = (r, s') \<Longrightarrow> arrays s' = arrays s"
  by (auto simp: call_model_def split: option.splits)

lemma length_store_put_other:
  "i < length (arrays s ! a) \<Longrightarrow> length (arrays (store_put b i v s) ! a) = length (arrays s ! a)"
  by (cases "a = b"; cases "b < length (arrays s)")
     (simp_all add: store_put_def array_put_def list_update_beyond)

text \<open>
  The loop of \<open>getCached\<close> over the copy \<open>array\<close>; \<open>returnedArray\<close> starts empty and
  \<open>returnedArray[i] = ...\<close> appends to it.
\<close>

function getCached_loop :: "nat \<Rightarrow> nat \<Rightarrow> nat \<Rightarrow> unit io" where
  "getCached_loop array returnedArray i s =
     (if i < length (arrays s ! array)
      then
        (case call_model (arrays s ! array ! i) s of
           (Inl e, s') \<Rightarrow> (Inl e, s')
         | (Inr embedding, s') \<Rightarrow>
             getCached_loop array returnedArray (i + 1)
               (store_put returnedArray i (Entry (Some (arrays s ! array ! i)) (Some embedding)) s'))
      else (Inr (), s))"
  by pat_completeness auto
termination
proof (relation "measure (\<lambda>(array, returnedArray, i, s). length (arrays s ! array) - i)", goal_cases)
  case 1
  show ?case by simp
next
  case (2 array returnedArray i s x s' embedding)
  from 2(2) [symmetric] have same: "arrays s' = arrays s"
    by (rule call_model_arrays)
  from 2(1) same have "i < length (arrays s' ! array)" by simp
  from length_store_put_other [OF this] same 2(1) show ?case by simp
qed

definition getCached :: "nat \<Rightarrow> nat io" where
  "getCached array = (\<lambda>s.
     if model s = None then modelNotLoadedErrorMessage s
     else
       bind (alloc (arrays s ! array))
         (\<lambda>copy. bind (alloc [])
            (\<lambda>returnedArray. bind (getCached_loop copy returnedArray 0)
               (\<lambda>_. unit returnedArray))) s)"

text \<open>
  The callback that \<open>cachedCompareSentenceToArray\<close> and \<open>cachedArrayInOrder\<close> run over
  every item with \<open>cachedArray.map\<close>: it throws on a falsy \<open>sentenceTwo\<close>, then spreads
  \<open>item.embedding\<close>, which throws a \<open>TypeError\<close> when that is \<open>undefined\<close>. The mapped array
  is dropped by both callers, so only the first error, if any, is kept.
\<close>

fun check_entries :: "jsval list \<Rightarrow> error option" where
  "check_entries [] = None"
| "check_entries (item # rest) =
     (if \<not> truthy_opt (prop_sentenceTwo item) then Some InvalidCacheEntry
      else case prop_embedding item of
             None \<Rightarrow> Some TypeError
           | Some e \<Rightarrow> check_entries rest)"

definition cachedCompareSentenceToArray :: "string \<Rightarrow> nat \<Rightarrow> (string \<times> nat) io" where
  "cachedCompareSentenceToArray sentence cachedArray = (\<lambda>s.
     case check_entries (arrays s ! cachedArray) of
       Some e \<Rightarrow> throw e s
     | None \<Rightarrow>
         bind (compareSentenceToArray sentence cachedArray True)
           (\<lambda>(sentenceOne, returnedArray). unit (sentenceOne, returnedArray)) s)"

definition cachedArrayInOrder :: "string \<Rightarrow> nat \<Rightarrow> (string \<times> nat) io" where
  "cachedArrayInOrder sentence cachedArray = (\<lambda>s.
     case check_entries (arrays s ! cachedArray) of
       Some e \<Rightarrow> throw e s
     | None \<Rightarrow>
         bind (compareSentenceToArray sentence cachedArray True)
           (\<lambda>(sentenceOne, returnedArray).
              bind (sort_in_place returnedArray)
                (\<lambda>_. unit (sentenceOne, returnedArray))) s)"

section \<open>LinkedListInAlikeOrder\<close>

text \<open>
  The nodes of the list are objects that point at each other, so they live in a heap of
  their own: \<open>nodes\<close>, where a node's identity is its index and \<open>null\<close> is \<open>None\<close>. The
  heap belongs to the list object, which is the only holder of its nodes.
\<close>

text \<open>
  A node is \<open>{...obj, next, prev}\<close>. The list object has the fields \<open>head\<close>, \<open>tail\<close>,
  \<open>length\<close> (here \<open>lengthL\<close>) and \<open>maxLength\<close>; the counters are integers.
\<close>

record node = candidate +
  "next" :: "nat option"
  prev :: "nat option"

record LinkedListInAlikeOrder =
  nodes :: "node list"
  head :: "nat option"
  tail :: "nat option"
  lengthL :: int
  maxLength :: int

definition new_LinkedListInAlikeOrder :: "int \<Rightarrow> LinkedListInAlikeOrder" where
  "new_LinkedListInAlikeOrder maxLength' =
     \<lparr>nodes = [], head = None, tail = None, lengthL = 0, maxLength = maxLength'\<rparr>"

text \<open>\<open>_node(obj)\<close>\<close>

definition LL_node :: "candidate \<Rightarrow> node" where
  "LL_node obj = \<lparr>sentenceTwo = sentenceTwo obj, alike = alike obj, next = None, prev = None\<rparr>"

definition set_next :: "nat \<Rightarrow> nat option \<Rightarrow> node list \<Rightarrow> node list" where
  "set_next a x ns = ns[a := (ns ! a)\<lparr>next := x\<rparr>]"

definition set_prev :: "nat \<Rightarrow> nat option \<Rightarrow> node list \<Rightarrow> node list" where
  "set_prev a x ns = ns[a := (ns ! a)\<lparr>prev := x\<rparr>]"

text \<open>
  \<open>getArray\<close> follows \<open>next\<close> until \<open>null\<close>; on a cyclic heap that never ends, so the loop
  is a partial function.
\<close>

partial_function (option) getArray_loop :: "node list \<Rightarrow> nat option \<Rightarrow> jsval list \<Rightarrow> jsval list option" where
  "getArray_loop ns currentNode array =
     (case currentNode of
        None \<Rightarrow> Some array
      | Some a \<Rightarrow>
          getArray_loop ns (next (ns ! a)) (array @ [Scored (sentenceTwo (ns ! a)) (alike (ns ! a))]))"

definition LL_getArray :: "LinkedListInAlikeOrder \<Rightarrow> jsval list option" where
  "LL_getArray l = getArray_loop (nodes l) (head l) []"

text \<open>\<open>_getIndex(alike)\<close>: at most \<open>maxLength\<close> nodes are looked at.\<close>

function getIndex_loop :: "LinkedListInAlikeOrder \<Rightarrow> number \<Rightarrow> int \<Rightarrow> nat option \<Rightarrow> int" where
  "getIndex_loop l alike' count' currentNode =
     (if count' < maxLength l
      then
        (case currentNode of
           None \<Rightarrow> count'
         | Some a \<Rightarrow>
             if jle (alike (nodes l ! a)) alike' then count'
             else getIndex_loop l alike' (count' + 1) (next (nodes l ! a)))
      else maxLength l)"
  by pat_completeness auto
termination
  by (relation "measure (\<lambda>(l, alike', count', currentNode). nat (maxLength l - count'))") auto

definition LL_getIndex :: "LinkedListInAlikeOrder \<Rightarrow> number \<Rightarrow> int" where
  "LL_getIndex l alike' = getIndex_loop l alike' 0 (head l)"

text \<open>\<open>_deleteLastNode()\<close> and \<open>_audit()\<close>\<close>

definition LL_deleteLastNode :: "LinkedListInAlikeOrder \<Rightarrow> error + LinkedListInAlikeOrder" where
  "LL_deleteLastNode l =
     (case tail l of
        None \<Rightarrow> Inl TypeError
      | Some t \<Rightarrow>
          (case prev (nodes l ! t) of
             None \<Rightarrow> Inl TypeError
           | Some newTail \<Rightarrow>
               Inr (l\<lparr>nodes := set_next newTail None (set_prev t None (nodes l)),
                      tail := Some newTail,
                      lengthL := lengthL l - 1\<rparr>)))"

definition LL_audit :: "LinkedListInAlikeOrder \<Rightarrow> error + LinkedListInAlikeOrder" where
  "LL_audit l = (if lengthL l > maxLength l then LL_deleteLastNode l else Inr l)"

text \<open>The walk of \<open>_insertAtIndex\<close> to the node in front of position \<open>index\<close>.\<close>

function walk :: "node list \<Rightarrow> nat option \<Rightarrow> int \<Rightarrow> int \<Rightarrow> error + nat option" where
  "walk ns currentNode count' index =
     (if count' + 1 < index
      then
        (case currentNode of
           None \<Rightarrow> Inl TypeError
         | Some a \<Rightarrow> walk ns (next (ns ! a)) (count' + 1) index)
      else Inr currentNode)"
  by pat_completeness auto
termination
  by (relation "measure (\<lambda>(ns, currentNode, count', index). nat (index - count'))") auto

text \<open>
  \<open>_insertAtIndex(index, obj)\<close>: the new node is created first, then linked in at the
  head, at the tail or behind the node the walk ends at; reading a property of \<open>null\<close>
  on the way is a \<open>TypeError\<close>.
\<close>

definition LL_insertAtIndex ::
  "LinkedListInAlikeOrder \<Rightarrow> int \<Rightarrow> candidate \<Rightarrow> error + LinkedListInAlikeOrder" where
  "LL_insertAtIndex l index obj =
     (let newNode = length (nodes l); ns = nodes l @ [LL_node obj] in
      if index = 0 then
        (case head l of
           None \<Rightarrow> Inl TypeError
         | Some h \<Rightarrow>
             LL_audit (l\<lparr>nodes := set_prev h (Some newNode) (set_next newNode (head l) ns),
                         head := Some newNode,
                         lengthL := lengthL l + 1\<rparr>))
      else if index = lengthL l then
        (case tail l of
           None \<Rightarrow> Inl TypeError
         | Some t \<Rightarrow>
             LL_audit (l\<lparr>nodes := set_prev newNode (tail l) (set_next t (Some newNode) ns),
                         tail := Some newNode,
                         lengthL := lengthL l + 1\<rparr>))
      else
        (case walk ns (head l) 0 index of
           Inl e \<Rightarrow> Inl e
         | Inr None \<Rightarrow> Inl TypeError
         | Inr (Some c) \<Rightarrow>
             (case next (ns ! c) of
                None \<Rightarrow> Inl TypeError
              | Some n \<Rightarrow>
                  LL_audit
                    (l\<lparr>nodes := set_next c (Some newNode)
                                   (set_prev newNode (Some c)
                                      (set_prev n (Some newNode)
                                         (set_next newNode (Some n) ns))),
                       lengthL := lengthL l + 1\<rparr>))))"

text \<open>\<open>addNode(obj)\<close>\<close>

definition LL_addNode :: "LinkedListInAlikeOrder \<Rightarrow> candidate \<Rightarrow> error + LinkedListInAlikeOrder" where
  "LL_addNode l obj =
     (case head l of
        None \<Rightarrow>
          LL_audit (l\<lparr>nodes := nodes l @ [LL_node obj],
                      head := Some (length (nodes l)),
                      tail := Some (length (nodes l)),
                      lengthL := lengthL l + 1\<rparr>)
      | Some h \<Rightarrow> LL_insertAtIndex l (LL_getIndex l (alike obj)) obj)"

text \<open>A ranker fed a sequence of candidates, one \<open>addNode\<close> after the other.\<close>

fun addNodes :: "LinkedListInAlikeOrder \<Rightarrow> candidate list \<Rightarrow> error + LinkedListInAlikeOrder" where
  "addNodes l [] = Inr l"
| "addNodes l (obj # objs) =
     (case LL_addNode l obj of
        Inl e \<Rightarrow> Inl e
      | Inr l' \<Rightarrow> addNodes l' objs)"

section \<open>getTop\<close>

text \<open>
  The loop of \<open>getTop\<close> runs over the caller's \<open>array\<close> (the copy is used for its
  length only) and passes each item to \<open>classify\<close> as it is.
\<close>

function getTop_loop ::
  "string \<Rightarrow> nat \<Rightarrow> nat \<Rightarrow> real list option \<Rightarrow> LinkedListInAlikeOrder \<Rightarrow> LinkedListInAlikeOrder io" where
  "getTop_loop sentence array i cache list s =
     (if i < length (arrays s ! array)
      then
        (case classify sentence (arrays s ! array ! i) cache (i \<noteq> 0) None False s of
           (Inl e, s') \<Rightarrow> (Inl e, s')
         | (Inr r, s') \<Rightarrow>
             (case LL_addNode list \<lparr>sentenceTwo = sentenceTwo r, alike = alike r\<rparr> of
                Inl e \<Rightarrow> (Inl e, s')
              | Inr list' \<Rightarrow>
                  getTop_loop sentence array (i + 1)
                    (if i = 0 then embedding1Cache r else cache) list' s'))
      else (Inr list, s))"
  by pat_completeness auto
termination
proof (relation "measure (\<lambda>(sentence, array, i, cache, list, s). length (arrays s ! array) - i)", goal_cases)
  case 1
  show ?case by simp
next
  case (2 sentence array i cache list s x s' r)
  from 2(2) [symmetric] have "arrays s' = arrays s"
    by (rule classify_arrays)
  with 2(1) show ?case by simp
qed

text \<open>
  \<open>getTop\<close> ends only if \<open>getArray\<close> does, so its result is an option: \<open>None\<close> stands for
  a call that never returns.
\<close>

definition getTop :: "string \<Rightarrow> nat \<Rightarrow> int \<Rightarrow> state \<Rightarrow> ((error + string \<times> nat) \<times> state) option" where
  "getTop sentence array numberOfResults s =
     (if model s = None then Some (modelNotLoadedErrorMessage s)
      else if numberOfResults \<le> 0 then Some (throw InvalidK s)
      else
        (case alloc (arrays s ! array) s of
           (Inl e, s1) \<Rightarrow> Some (Inl e, s1)
         | (Inr arrayCopy, s1) \<Rightarrow>
             (case getTop_loop sentence array 0 None
                     (new_LinkedListInAlikeOrder
                        (min numberOfResults (int (length (arrays s1 ! arrayCopy))))) s1 of
                (Inl e, s2) \<Rightarrow> Some (Inl e, s2)
              | (Inr list, s2) \<Rightarrow>
                  (case LL_getArray list of
                     None \<Rightarrow> None
                   | Some resultantArray \<Rightarrow>
                       Some (bind (alloc resultantArray) (\<lambda>a. unit (sentence, a)) s2)))))"

section \<open>What a well-formed list looks like in the heap\<close>

text \<open>
  The definitions of this section are used to state and prove properties; none of them
  is part of the program. \<open>nxt\<close> and \<open>prv\<close> read the two pointers of a node; \<open>path\<close>
  says that following \<open>f\<close> from \<open>p\<close> visits exactly the nodes \<open>as\<close> and ends in \<open>q\<close>;
  \<open>backlinks\<close> says that each node of \<open>as\<close> points back at the one in front of it.
\<close>

definition nxt :: "node list \<Rightarrow> nat \<Rightarrow> nat option" where
  "nxt ns a = next (ns ! a)"

definition prv :: "node list \<Rightarrow> nat \<Rightarrow> nat option" where
  "prv ns a = prev (ns ! a)"

fun path :: "(nat \<Rightarrow> nat option) \<Rightarrow> nat option \<Rightarrow> nat list \<Rightarrow> nat option \<Rightarrow> bool" where
  "path f p [] q = (p = q)"
| "path f p (a # as) q = (p = Some a \<and> path f (f a) as q)"

fun backlinks :: "(nat \<Rightarrow> nat option) \<Rightarrow> nat option \<Rightarrow> nat list \<Rightarrow> bool" where
  "backlinks g p [] = True"
| "backlinks g p (a # as) = (g a = p \<and> backlinks g (Some a) as)"

text \<open>
  The list object \<open>l\<close> holds the nodes \<open>as\<close>, in this order: \<open>head\<close> leads through them
  to \<open>null\<close>, the \<open>prev\<close> pointers mirror that, \<open>tail\<close> is the last of them, and \<open>length\<close>
  counts them.
\<close>

definition holds :: "LinkedListInAlikeOrder \<Rightarrow> nat list \<Rightarrow> bool" where
  "holds l as \<longleftrightarrow>
     path (nxt (nodes l)) (head l) as None \<and>
     backlinks (prv (nodes l)) None as \<and>
     distinct as \<and>
     list_all (\<lambda>a. a < length (nodes l)) as \<and>
     tail l = (if as = [] then None else Some (last as)) \<and>
     lengthL l = int (length as)"

definition payload :: "node \<Rightarrow> candidate" where
  "payload n = \<lparr>sentenceTwo = sentenceTwo n, alike = alike n\<rparr>"

definition contents :: "node list \<Rightarrow> nat list \<Rightarrow> candidate list" where
  "contents ns as = map (\<lambda>a. payload (ns ! a)) as"

text \<open>
  Where \<open>addNode\<close> puts a candidate, said on plain lists: in front of the first stored
  candidate whose score is \<open><=\<close> the new one. \<open>ranked\<close> is the list this builds from a
  sequence of candidates when nothing is ever evicted.
\<close>

fun place :: "candidate \<Rightarrow> candidate list \<Rightarrow> candidate list" where
  "place x [] = [x]"
| "place x (y # ys) = (if jle (alike y) (alike x) then x # y # ys else y # place x ys)"

definition ranked :: "candidate list \<Rightarrow> candidate list" where
  "ranked xs = foldl (\<lambda>kept x. place x kept) [] xs"

text \<open>A candidate as the element \<open>{alike, sentenceTwo}\<close> of a result array.\<close>

definition as_result :: "candidate \<Rightarrow> jsval" where
  "as_result c = Scored (sentenceTwo c) (alike c)"

text \<open>Sorted by score, highest first.\<close>

definition descending :: "candidate list \<Rightarrow> bool" where
  "descending xs = sorted_wrt (\<lambda>x y. jle (alike y) (alike x)) xs"

text \<open>
  For the statements about results: the score the code computes for two embeddings that
  are both present, and the result entry of an item under a provider \<open>p\<close> when the
  sentence has the embedding \<open>e1\<close>.
\<close>

definition cosine :: "real list \<Rightarrow> real list \<Rightarrow> number" where
  "cosine e1 e2 =
     (case cosine_loop e1 e2 0 (Num 0, Num 0, Num 0) of
        (dotProduct, magnitude1, magnitude2) \<Rightarrow>
          jdiv dotProduct (jmul (jsqrt magnitude1) (jsqrt magnitude2)))"

definition scored :: "provider \<Rightarrow> real list \<Rightarrow> jsval \<Rightarrow> candidate" where
  "scored p e1 t = \<lparr>sentenceTwo = t, alike = cosine e1 (the (p t))\<rparr>"

text \<open>
  Two providers for the examples. \<open>unit_provider\<close> embeds everything as the same vector.
  \<open>axis_provider\<close> embeds the text \<open>x\<close> as one axis and every other text as the other
  axis, and rejects what is not a string.
\<close>

definition unit_provider :: provider where
  "unit_provider = (\<lambda>t. Some [1])"

fun axis_provider :: provider where
  "axis_provider (Str t) = Some (if t = ''x'' then [0, 1] else [1, 0])"
| "axis_provider _ = None"

section \<open>Properties of the cosine similarity\<close>

lemma jmul_commute: "jmul a b = jmul b a"
  by (cases a; cases b) (simp_all add: mult.commute)

lemma cosine_loop_swap:
  "length e1 = length e2 \<Longrightarrow>
   cosine_loop e1 e2 i (d, m1, m2) = (d', m1', m2') \<Longrightarrow>
   cosine_loop e2 e1 i (d, m2, m1) = (d', m2', m1')"
proof (induction e1 e2 i "(d, m1, m2)" arbitrary: d m1 m2 rule: cosine_loop.induct)
  case (1 e1 e2 i d m1 m2)
  show ?case
  proof (cases "i < length e1")
    case True
    with "1.prems" have run:
      "cosine_loop e1 e2 (i + 1)
         (jadd d (jmul (idx e1 i) (idx e2 i)),
          jadd m1 (jmul (idx e1 i) (idx e1 i)),
          jadd m2 (jmul (idx e2 i) (idx e2 i))) = (d', m1', m2')"
      by simp
    from "1.hyps" [OF True "1.prems"(1) run] True "1.prems"(1)
    show ?thesis by (simp add: jmul_commute [of "idx e2 i" "idx e1 i"])
  next
    case False
    with "1.prems" show ?thesis by simp
  qed
qed

text \<open>
  Claim C9. The cosine similarity is symmetric: for two embeddings of equal length,
  \<open>score(a, b)\<close> and \<open>score(b, a)\<close> are the same value. (When that value is NaN, which
  happens for a zero vector, JavaScript's own \<open>==\<close> is false on any two NaNs; the two
  calls still compute the same number.)
\<close>

theorem cosine_symmetric:
  "length a = length b \<Longrightarrow>
   calculateCosineSimilarity (Some a) (Some b) = calculateCosineSimilarity (Some b) (Some a)"
proof -
  assume len: "length a = length b"
  obtain d m1 m2 where run: "cosine_loop a b 0 (Num 0, Num 0, Num 0) = (d, m1, m2)"
    by (metis prod_cases3)
  from cosine_loop_swap [OF len run]
  have "cosine_loop b a 0 (Num 0, Num 0, Num 0) = (d, m2, m1)" .
  with run show ?thesis
    by (simp add: calculateCosineSimilarity_def jmul_commute [of "jsqrt m2" "jsqrt m1"])
qed

theorem cosine_symmetric_witness:
  "length [3, 4 :: real] = length [4, 3 :: real] \<and>
   calculateCosineSimilarity (Some [3, 4]) (Some [4, 3]) = calculateCosineSimilarity (Some [4, 3]) (Some [3, 4])"
  using cosine_symmetric [of "[3, 4]" "[4, 3]"] by simp

section \<open>Calls while the model is not loaded\<close>

lemmas io_defs = bind_def unit_def throw_def alloc_def modelNotLoadedErrorMessage_def

lemma compare_loop_unloaded:
  "model s = None \<Longrightarrow> \<exists>r. compare_loop sentence True array 0 None s = (r, s)"
  by (subst compare_loop.simps) (simp add: classify_def call_model_def io_defs)

lemma compare_cached_unloaded:
  assumes "model s = None"
  shows "trace (snd (compareSentenceToArray x array True s)) = trace s"
proof -
  let ?s1 = "s\<lparr>arrays := arrays s @ [arrays s ! array]\<rparr>"
  from assms have "model ?s1 = None" by simp
  from compare_loop_unloaded [OF this, of x "length (arrays s)"]
  obtain r where "compare_loop x True (length (arrays s)) 0 None ?s1 = (r, ?s1)" by blast
  then show ?thesis
    by (cases r) (simp_all add: compareSentenceToArray_def io_defs)
qed

lemma cached_unloaded:
  assumes "model s = None"
  shows "trace (snd (cachedCompareSentenceToArray x array s)) = trace s"
    and "trace (snd (cachedArrayInOrder x array s)) = trace s"
  using compare_cached_unloaded [OF assms, of x array]
  by (auto simp: cachedCompareSentenceToArray_def cachedArrayInOrder_def sort_in_place_def io_defs
      split: option.splits prod.splits sum.splits)

text \<open>
  Claim C1, as the code has it. While \<open>model\<close> is \<open>null\<close>, the operations
  \<open>compareTwoSentences\<close>, \<open>arrayInOrder\<close>, \<open>getCached\<close>, \<open>getTop\<close>, and
  \<open>compareSentenceToArray\<close> called with \<open>doesCache2Exist = false\<close>, fail with the
  model-not-loaded error and leave the state as it was: no provider call, no similarity.
  The calls on cached items (\<open>doesCache2Exist = true\<close>, \<open>cachedCompareSentenceToArray\<close>,
  \<open>cachedArrayInOrder\<close>) pass the guard by design; they too make no provider call.
\<close>

theorem model_not_loaded:
  "model s = None \<Longrightarrow>
     compareTwoSentences x y s = (Inl ModelNotLoaded, s) \<and>
     compareSentenceToArray x array False s = (Inl ModelNotLoaded, s) \<and>
     arrayInOrder x array s = (Inl ModelNotLoaded, s) \<and>
     getCached array s = (Inl ModelNotLoaded, s) \<and>
     getTop x array k s = Some (Inl ModelNotLoaded, s) \<and>
     trace (snd (compareSentenceToArray x array True s)) = trace s \<and>
     trace (snd (cachedCompareSentenceToArray x array s)) = trace s \<and>
     trace (snd (cachedArrayInOrder x array s)) = trace s"
  using compare_cached_unloaded [of s x array] cached_unloaded [of s x array]
  by (simp add: compareTwoSentences_def compareSentenceToArray_def arrayInOrder_def
      getCached_def getTop_def io_defs)

theorem model_not_loaded_witness:
  "model \<lparr>model = None, arrays = [ [Str ''b''] ], trace = []\<rparr> = None \<and>
   compareTwoSentences ''a'' ''b'' \<lparr>model = None, arrays = [ [Str ''b''] ], trace = []\<rparr>
     = (Inl ModelNotLoaded, \<lparr>model = None, arrays = [ [Str ''b''] ], trace = []\<rparr>) \<and>
   getTop ''a'' 0 1 \<lparr>model = None, arrays = [ [Str ''b''] ], trace = []\<rparr>
     = Some (Inl ModelNotLoaded, \<lparr>model = None, arrays = [ [Str ''b''] ], trace = []\<rparr>) \<and>
   trace (snd (cachedCompareSentenceToArray ''a'' 0 \<lparr>model = None, arrays = [ [Str ''b''] ], trace = []\<rparr>)) = []"
  using model_not_loaded [of "\<lparr>model = None, arrays = [ [Str ''b''] ], trace = []\<rparr>" "''a''" "''b''" 0 1]
  by simp

text \<open>
  The claim as the specification states it fails for the cached calls: without a model,
  \<open>cachedCompareSentenceToArray\<close> on an empty array returns a result, and
  \<open>compareSentenceToArray\<close> on cached items ends with a \<open>TypeError\<close> (it calls \<open>model\<close>,
  which is \<open>null\<close>, for the sentence), not with the model-not-loaded error.
\<close>

theorem model_not_loaded_counterexample:
  "fst (cachedCompareSentenceToArray ''a'' 0 \<lparr>model = None, arrays = [ [] ], trace = []\<rparr>)
     = Inr (''a'', 1) \<and>
   fst (compareSentenceToArray ''a'' 0 True
          \<lparr>model = None, arrays = [ [Entry (Some (Str ''b'')) (Some [1])] ], trace = []\<rparr>)
     = Inl TypeError"
  by (simp add: cachedCompareSentenceToArray_def compareSentenceToArray_def io_defs
      classify_def call_model_def text_of_def)

section \<open>getTop on an empty array\<close>

text \<open>
  Claim C10. With a loaded model and \<open>numberOfResults \<ge> 1\<close>, \<open>getTop\<close> on an empty array
  returns \<open>{sentenceOne: sentence, array: []}\<close>; the only change of the state is the two
  arrays it allocates (the copy and the result), so the provider is not called.
\<close>

theorem getTop_empty:
  "model s \<noteq> None \<Longrightarrow> 1 \<le> k \<Longrightarrow> array < length (arrays s) \<Longrightarrow> arrays s ! array = [] \<Longrightarrow>
   getTop sentence array k s =
     Some (Inr (sentence, Suc (length (arrays s))), s\<lparr>arrays := arrays s @ [ [], [] ]\<rparr>)"
  by (simp add: getTop_def io_defs nth_append new_LinkedListInAlikeOrder_def LL_getArray_def
      getArray_loop.simps)

theorem getTop_empty_witness:
  "model \<lparr>model = Some unit_provider, arrays = [ [] ], trace = []\<rparr> \<noteq> None \<and> (1::int) \<le> 3 \<and>
   0 < length (arrays \<lparr>model = Some unit_provider, arrays = [ [] ], trace = []\<rparr>) \<and>
   arrays \<lparr>model = Some unit_provider, arrays = [ [] ], trace = []\<rparr> ! 0 = [] \<and>
   getTop ''a'' 0 3 \<lparr>model = Some unit_provider, arrays = [ [] ], trace = []\<rparr> =
     Some (Inr (''a'', 2), \<lparr>model = Some unit_provider, arrays = [ [], [], [] ], trace = []\<rparr>)"
  using getTop_empty [of "\<lparr>model = Some unit_provider, arrays = [ [] ], trace = []\<rparr>" 3 0 "''a''"]
  by simp

section \<open>compareSentenceToArray leaves the caller's array alone\<close>

lemma store_put_frame: "a \<noteq> b \<Longrightarrow> arrays (store_put b i v s) ! a = arrays s ! a"
  by (simp add: store_put_def)

lemma store_put_length: "length (arrays (store_put b i v s)) = length (arrays s)"
  by (simp add: store_put_def)

lemma compare_loop_frame:
  "compare_loop sentence d copy i cache s = (r, s') \<Longrightarrow>
   length (arrays s') = length (arrays s) \<and> (\<forall>a. a \<noteq> copy \<longrightarrow> arrays s' ! a = arrays s ! a)"
proof (induction sentence d copy i cache s rule: compare_loop.induct)
  case (1 sentence d copy i cache s)
  show ?case
  proof (cases "i < length (arrays s ! copy)")
    case False
    with "1.prems" show ?thesis by simp
  next
    case True
    obtain x s1 where c: "classify sentence (text_of (arrays s ! copy ! i)) cache (i \<noteq> 0)
                (prop_embedding (arrays s ! copy ! i)) d s = (x, s1)"
      by (cases "classify sentence (text_of (arrays s ! copy ! i)) cache (i \<noteq> 0)
                (prop_embedding (arrays s ! copy ! i)) d s")
    from classify_arrays [OF c] have same: "arrays s1 = arrays s" .
    show ?thesis
    proof (cases x)
      case (Inl e)
      with True c "1.prems" same show ?thesis by simp
    next
      case (Inr res)
      with True c "1.prems" have run:
        "compare_loop sentence d copy (i + 1) (if i = 0 then embedding1Cache res else cache)
           (store_put copy i (Scored (sentenceTwo res) (alike res)) s1) = (r, s')"
        by simp
      from "1.IH" [OF True c [symmetric] Inr run] same
      show ?thesis by (simp add: store_put_frame store_put_length)
    qed
  qed
qed

text \<open>
  Claim C7. \<open>compareSentenceToArray\<close> does not change the caller's array: after the call,
  whether it returned or threw, the array object \<open>array\<close> holds what it held before (and
  so does every other array that existed), and the array of the result is another
  object. The items themselves are never written to: the code assigns to no property of
  an item, and the model has no operation that could.
\<close>

theorem compare_keeps_items:
  "array < length (arrays s) \<Longrightarrow>
   arrays (snd (compareSentenceToArray sentence array d s)) ! array = arrays s ! array \<and>
   take (length (arrays s)) (arrays (snd (compareSentenceToArray sentence array d s))) = arrays s \<and>
   (\<forall>r. fst (compareSentenceToArray sentence array d s) = Inr r \<longrightarrow> snd r \<noteq> array)"
proof (cases "\<not> d \<and> model s = None")
  case True
  then show ?thesis by (simp add: compareSentenceToArray_def io_defs)
next
  case False
  assume valid: "array < length (arrays s)"
  let ?s1 = "s\<lparr>arrays := arrays s @ [arrays s ! array]\<rparr>"
  obtain r s' where run: "compare_loop sentence d (length (arrays s)) 0 None ?s1 = (r, s')"
    by (cases "compare_loop sentence d (length (arrays s)) 0 None ?s1")
  from compare_loop_frame [OF run]
  have len: "length (arrays s') = Suc (length (arrays s))"
    and frame: "\<And>a. a < length (arrays s) \<Longrightarrow> arrays s' ! a = arrays s ! a"
    by (simp_all add: nth_append)
  have "take (length (arrays s)) (arrays s') = arrays s"
    using len frame by (intro nth_equalityI) simp_all
  with False run valid frame [OF valid] show ?thesis
    by (cases r) (auto simp: compareSentenceToArray_def io_defs)
qed

lemma cosine_unit: "calculateCosineSimilarity (Some [1]) (Some [1]) = Inr (Num 1)"
  by (simp add: calculateCosineSimilarity_def idx_def)

theorem compare_keeps_items_witness:
  "0 < length (arrays \<lparr>model = Some unit_provider, arrays = [ [Str ''b''] ], trace = []\<rparr>) \<and>
   compareSentenceToArray ''a'' 0 False \<lparr>model = Some unit_provider, arrays = [ [Str ''b''] ], trace = []\<rparr>
     = (Inr (''a'', 1),
        \<lparr>model = Some unit_provider, arrays = [ [Str ''b''], [Scored (Str ''b'') (Num 1)] ],
         trace = [Embed (Str ''a''), Embed (Str ''b''), Score]\<rparr>) \<and>
   arrays (snd (compareSentenceToArray ''a'' 0 False
       \<lparr>model = Some unit_provider, arrays = [ [Str ''b''] ], trace = []\<rparr>)) ! 0 = [Str ''b'']"
  using compare_keeps_items [of 0 "\<lparr>model = Some unit_provider, arrays = [ [Str ''b''] ], trace = []\<rparr>" "''a''" False]
  by (simp add: compareSentenceToArray_def io_defs classify_def call_model_def text_of_def
      similarity_of_def store_put_def array_put_def cosine_unit unit_provider_def)

section \<open>Validation of cached entries\<close>

lemma check_entries_bad:
  "x \<in> set xs \<Longrightarrow> \<not> truthy_opt (prop_sentenceTwo x) \<Longrightarrow>
   check_entries xs = Some InvalidCacheEntry \<or> check_entries xs = Some TypeError"
  by (induction xs) (auto split: option.splits)

lemma check_entries_invalid:
  "x \<in> set xs \<Longrightarrow> \<not> truthy_opt (prop_sentenceTwo x) \<Longrightarrow>
   \<forall>y \<in> set (takeWhile (\<lambda>y. truthy_opt (prop_sentenceTwo y)) xs). prop_embedding y \<noteq> None \<Longrightarrow>
   check_entries xs = Some InvalidCacheEntry"
  by (induction xs) (auto split: option.splits)

text \<open>
  Claim C8, as the code has it. When some entry of the cached array has no (or an empty)
  \<open>sentenceTwo\<close>, \<open>cachedCompareSentenceToArray\<close> fails before anything is scored or
  embedded: the state is untouched. The error is the invalid-entry error whenever every
  entry in front of the first such entry carries an \<open>embedding\<close>; otherwise it is the
  \<open>TypeError\<close> of spreading the missing embedding.
\<close>

theorem cached_missing_text:
  "x \<in> set (arrays s ! cachedArray) \<Longrightarrow> \<not> truthy_opt (prop_sentenceTwo x) \<Longrightarrow>
   (cachedCompareSentenceToArray sentence cachedArray s = (Inl InvalidCacheEntry, s)
      \<or> cachedCompareSentenceToArray sentence cachedArray s = (Inl TypeError, s))
   \<and> ((\<forall>y \<in> set (takeWhile (\<lambda>y. truthy_opt (prop_sentenceTwo y)) (arrays s ! cachedArray)).
          prop_embedding y \<noteq> None)
        \<longrightarrow> cachedCompareSentenceToArray sentence cachedArray s = (Inl InvalidCacheEntry, s))"
  using check_entries_bad [of x "arrays s ! cachedArray"]
    check_entries_invalid [of x "arrays s ! cachedArray"]
  by (auto simp: cachedCompareSentenceToArray_def io_defs)

theorem cached_missing_text_witness:
  "Entry None (Some [1])
     \<in> set (arrays \<lparr>model = None, arrays = [ [Entry (Some (Str ''a'')) (Some [1]), Entry None (Some [1])] ],
                    trace = []\<rparr> ! 0) \<and>
   \<not> truthy_opt (prop_sentenceTwo (Entry None (Some [1]))) \<and>
   list_all (\<lambda>y. prop_embedding y \<noteq> None)
     (takeWhile (\<lambda>y. truthy_opt (prop_sentenceTwo y))
        [Entry (Some (Str ''a'')) (Some [1]), Entry None (Some [1])]) \<and>
   cachedCompareSentenceToArray ''q'' 0
     \<lparr>model = None, arrays = [ [Entry (Some (Str ''a'')) (Some [1]), Entry None (Some [1])] ], trace = []\<rparr>
   = (Inl InvalidCacheEntry,
      \<lparr>model = None, arrays = [ [Entry (Some (Str ''a'')) (Some [1]), Entry None (Some [1])] ], trace = []\<rparr>)"
  using cached_missing_text [of "Entry None (Some [1])"
      "\<lparr>model = None, arrays = [ [Entry (Some (Str ''a'')) (Some [1]), Entry None (Some [1])] ], trace = []\<rparr>"
      0 "''q''"]
  by simp

text \<open>
  The claim as stated fails when an entry in front of the one without \<open>sentenceTwo\<close> has
  no \<open>embedding\<close>: the callback throws a \<open>TypeError\<close> at that earlier entry.
\<close>

theorem cached_missing_text_counterexample:
  "cachedCompareSentenceToArray ''q'' 0
     \<lparr>model = Some unit_provider,
      arrays = [ [Entry (Some (Str ''a'')) None, Entry None (Some [1])] ], trace = []\<rparr>
   = (Inl TypeError,
      \<lparr>model = Some unit_provider,
       arrays = [ [Entry (Some (Str ''a'')) None, Entry None (Some [1])] ], trace = []\<rparr>)"
  by (simp add: cachedCompareSentenceToArray_def io_defs)

text \<open>
  Claim C6, as the code has it. An entry whose text is empty or absent makes
  \<open>cachedCompareSentenceToArray\<close> and \<open>cachedArrayInOrder\<close> fail with an error; it is
  neither skipped nor scored. (The length of an entry's embedding is not looked at.)
\<close>

theorem cached_entry_text_required:
  "x \<in> set (arrays s ! cachedArray) \<Longrightarrow> \<not> truthy_opt (prop_sentenceTwo x) \<Longrightarrow>
   (\<exists>e. cachedCompareSentenceToArray sentence cachedArray s = (Inl e, s)) \<and>
   (\<exists>e. cachedArrayInOrder sentence cachedArray s = (Inl e, s))"
  using check_entries_bad [of x "arrays s ! cachedArray"]
  by (auto simp: cachedCompareSentenceToArray_def cachedArrayInOrder_def io_defs)

theorem cached_entry_text_required_witness:
  "Entry (Some (Str '''')) (Some [1])
     \<in> set (arrays \<lparr>model = None, arrays = [ [Entry (Some (Str '''')) (Some [1])] ], trace = []\<rparr> ! 0) \<and>
   \<not> truthy_opt (prop_sentenceTwo (Entry (Some (Str '''')) (Some [1]))) \<and>
   (\<exists>e. cachedCompareSentenceToArray ''q'' 0
           \<lparr>model = None, arrays = [ [Entry (Some (Str '''')) (Some [1])] ], trace = []\<rparr>
         = (Inl e, \<lparr>model = None, arrays = [ [Entry (Some (Str '''')) (Some [1])] ], trace = []\<rparr>)) \<and>
   (\<exists>e. cachedArrayInOrder ''q'' 0
           \<lparr>model = None, arrays = [ [Entry (Some (Str '''')) (Some [1])] ], trace = []\<rparr>
         = (Inl e, \<lparr>model = None, arrays = [ [Entry (Some (Str '''')) (Some [1])] ], trace = []\<rparr>))"
  using cached_entry_text_required [of "Entry (Some (Str '''')) (Some [1])"
      "\<lparr>model = None, arrays = [ [Entry (Some (Str '''')) (Some [1])] ], trace = []\<rparr>" 0 "''q''"]
  by simp

lemma cosine_longer: "calculateCosineSimilarity (Some [1]) (Some [1, 5]) = Inr (Num 1)"
  by (simp add: calculateCosineSimilarity_def idx_def)

text \<open>
  The claim as stated fails on the embedding: with a provider of dimension 1, an entry
  whose embedding has two components is scored, on its leading component, and the call
  returns.
\<close>

theorem cached_entry_dimension_counterexample:
  "cachedCompareSentenceToArray ''q'' 0
     \<lparr>model = Some unit_provider, arrays = [ [Entry (Some (Str ''a'')) (Some [1, 5])] ], trace = []\<rparr>
   = (Inr (''q'', 1),
      \<lparr>model = Some unit_provider,
       arrays = [ [Entry (Some (Str ''a'')) (Some [1, 5])], [Scored (Str ''a'') (Num 1)] ],
       trace = [Embed (Str ''q''), Score]\<rparr>)"
  by (simp add: cachedCompareSentenceToArray_def compareSentenceToArray_def io_defs classify_def
      call_model_def text_of_def similarity_of_def store_put_def array_put_def cosine_longer
      unit_provider_def)

section \<open>The linked list keeps the best candidates\<close>

text \<open>
  The pointer operations of the list are related to plain lists: when the list object
  holds the nodes \<open>as\<close>, each method returns (no \<open>TypeError\<close>) and leaves a list
  object that holds the nodes one expects. First the facts about paths and about what a
  write to one node changes; then one lemma for each place of insertion, for the
  eviction, and for \<open>addNode\<close> as a whole.
\<close>

lemma path_append: "path f p (as @ bs) q \<longleftrightarrow> (\<exists>r. path f p as r \<and> path f r bs q)"
  by (induction as arbitrary: p) auto

lemma path_cong: "(\<And>a. a \<in> set as \<Longrightarrow> f a = g a) \<Longrightarrow> path f p as q = path g p as q"
  by (induction as arbitrary: p) auto

lemma path_snoc: "path f p (as @ [a]) q \<longleftrightarrow> path f p as (Some a) \<and> f a = q"
  by (auto simp: path_append)

lemma backlinks_append:
  "backlinks g p (as @ bs) \<longleftrightarrow>
   backlinks g p as \<and> backlinks g (if as = [] then p else Some (last as)) bs"
  by (induction as arbitrary: p) auto

lemma backlinks_cong: "(\<And>a. a \<in> set as \<Longrightarrow> g a = h a) \<Longrightarrow> backlinks g p as = backlinks h p as"
  by (induction as arbitrary: p) auto

lemma length_set_next [simp]: "length (set_next c x ns) = length ns"
  by (simp add: set_next_def)

lemma length_set_prev [simp]: "length (set_prev c x ns) = length ns"
  by (simp add: set_prev_def)

lemma nxt_set_next: "nxt (set_next c x ns) a = (if a = c \<and> c < length ns then x else nxt ns a)"
  by (cases "c < length ns") (auto simp: nxt_def set_next_def list_update_beyond)

lemma nxt_set_prev [simp]: "nxt (set_prev c x ns) = nxt ns"
proof
  fix a show "nxt (set_prev c x ns) a = nxt ns a"
    by (cases "c < length ns"; cases "a = c") (auto simp: nxt_def set_prev_def list_update_beyond)
qed

lemma prv_set_prev: "prv (set_prev c x ns) a = (if a = c \<and> c < length ns then x else prv ns a)"
  by (cases "c < length ns") (auto simp: prv_def set_prev_def list_update_beyond)

lemma prv_set_next [simp]: "prv (set_next c x ns) = prv ns"
proof
  fix a show "prv (set_next c x ns) a = prv ns a"
    by (cases "c < length ns"; cases "a = c") (auto simp: prv_def set_next_def list_update_beyond)
qed

lemma payload_set_next [simp]: "payload (set_next c x ns ! a) = payload (ns ! a)"
  by (cases "c < length ns"; cases "a = c") (auto simp: payload_def set_next_def list_update_beyond)

lemma payload_set_prev [simp]: "payload (set_prev c x ns ! a) = payload (ns ! a)"
  by (cases "c < length ns"; cases "a = c") (auto simp: payload_def set_prev_def list_update_beyond)

lemma nxt_append: "nxt (ns @ [nd]) a = (if a < length ns then nxt ns a else if a = length ns then next nd else nxt (ns @ [nd]) a)"
  by (auto simp: nxt_def nth_append)

lemma prv_append: "prv (ns @ [nd]) a = (if a < length ns then prv ns a else if a = length ns then prev nd else prv (ns @ [nd]) a)"
  by (auto simp: prv_def nth_append)

lemma payload_LL_node [simp]: "payload (LL_node obj) = obj"
  by (simp add: payload_def LL_node_def)

lemma getArray_loop_path:
  "path (nxt ns) p as None \<Longrightarrow>
   getArray_loop ns p acc = Some (acc @ map as_result (contents ns as))"
proof (induction as arbitrary: p acc)
  case Nil
  then show ?case by (subst getArray_loop.simps) (simp add: contents_def)
next
  case (Cons a as)
  have nx: "next (ns ! a) = nxt ns a" by (simp add: nxt_def)
  from Cons.prems have p: "p = Some a" and rest: "path (nxt ns) (next (ns ! a)) as None"
    unfolding nx by simp_all
  show ?case
    by (subst getArray_loop.simps)
       (simp add: p Cons.IH [OF rest] contents_def as_result_def payload_def)
qed

lemma getIndex_loop_path:
  "path (nxt (nodes l)) p as None \<Longrightarrow> c + int (length as) \<le> maxLength l \<Longrightarrow>
   getIndex_loop l v c p =
     c + int (length (takeWhile (\<lambda>x. \<not> jle (alike x) v) (contents (nodes l) as)))"
proof (induction as arbitrary: p c)
  case Nil
  then show ?case by (subst getIndex_loop.simps) (auto simp: contents_def)
next
  case (Cons a as)
  have nx: "next (nodes l ! a) = nxt (nodes l) a" by (simp add: nxt_def)
  from Cons.prems have p: "p = Some a" and rest: "path (nxt (nodes l)) (next (nodes l ! a)) as None"
    unfolding nx by simp_all
  from Cons.prems have "(c + 1) + int (length as) \<le> maxLength l" by simp
  from Cons.IH [OF rest this] Cons.prems(2) show ?case
    by (subst getIndex_loop.simps) (simp add: p contents_def payload_def)
qed

lemma walk_path:
  "path (nxt ns) p as None \<Longrightarrow> k < length as \<Longrightarrow>
   walk ns p c (c + 1 + int k) = Inr (Some (as ! k))"
proof (induction k arbitrary: p as c)
  case 0
  then show ?case by (cases as) (simp_all add: walk.simps)
next
  case (Suc k)
  then obtain a bs where as: "as = a # bs" by (cases as) auto
  have nx: "next (ns ! a) = nxt ns a" by (simp add: nxt_def)
  from as Suc.prems have p: "p = Some a" and rest: "path (nxt ns) (next (ns ! a)) bs None"
    and k: "k < length bs"
    unfolding nx by simp_all
  from Suc.IH [OF rest k, of "c + 1"] show ?case
    by (subst walk.simps) (simp add: p as add.commute add.left_commute)
qed

lemma place_takeWhile:
  "place x ys = takeWhile (\<lambda>y. \<not> jle (alike y) (alike x)) ys @ x # dropWhile (\<lambda>y. \<not> jle (alike y) (alike x)) ys"
  by (induction ys) auto


lemma payload_append: "payload ((ns @ [nd]) ! a) = (if a < length ns then payload (ns ! a) else if a = length ns then payload nd else payload ((ns @ [nd]) ! a))"
  by (auto simp: nth_append)

lemma holds_bound: "holds l as \<Longrightarrow> a \<in> set as \<Longrightarrow> a < length (nodes l)"
  by (auto simp: holds_def list_all_iff)

lemma holds_fresh: "holds l as \<Longrightarrow> length (nodes l) \<notin> set as"
  by (auto dest: holds_bound)

lemma contents_cong: "(\<And>a. a \<in> set as \<Longrightarrow> payload (ms ! a) = payload (ns ! a)) \<Longrightarrow> contents ms as = contents ns as"
  by (simp add: contents_def)

lemma insert_front:
  assumes h: "holds l as" and ne: "as \<noteq> []"
  shows "\<exists>l1. LL_insertAtIndex l 0 obj = LL_audit l1 \<and>
           holds l1 (length (nodes l) # as) \<and>
           contents (nodes l1) (length (nodes l) # as) = obj # contents (nodes l) as \<and>
           maxLength l1 = maxLength l"
proof -
  let ?n = "length (nodes l)"
  let ?ns' = "nodes l @ [LL_node obj]"
  from ne obtain hd rest where as: "as = hd # rest" by (cases as) auto
  from h as have head: "head l = Some hd" by (simp add: holds_def)
  let ?ns1 = "set_prev hd (Some ?n) (set_next ?n (head l) ?ns')"
  let ?l1 = "l\<lparr>nodes := ?ns1, head := Some ?n, lengthL := lengthL l + 1\<rparr>"
  have run: "LL_insertAtIndex l 0 obj = LL_audit ?l1"
    by (simp add: LL_insertAtIndex_def Let_def head)
  have bound: "\<And>a. a \<in> set as \<Longrightarrow> a < ?n" using holds_bound [OF h] by simp
  have nx: "\<And>a. a \<in> set as \<Longrightarrow> nxt ?ns1 a = nxt (nodes l) a"
    using bound by (auto simp: nxt_set_next nxt_append)
  have nxn: "nxt ?ns1 ?n = Some hd"
    by (simp add: nxt_set_next head)
  have pvn: "prv ?ns1 ?n = None"
    using bound [of hd] as by (simp add: prv_set_prev prv_append LL_node_def)
  have pvh: "prv ?ns1 hd = Some ?n"
    using bound [of hd] as by (simp add: prv_set_prev)
  have pv: "\<And>a. a \<in> set rest \<Longrightarrow> prv ?ns1 a = prv (nodes l) a"
    using bound h as by (auto simp: prv_set_prev prv_append holds_def)
  have pay: "\<And>a. a \<in> set as \<Longrightarrow> payload (?ns1 ! a) = payload (nodes l ! a)"
    using bound by (auto simp: payload_append)
  have payn: "payload (?ns1 ! ?n) = obj"
    by (simp add: payload_append)
  from h have "path (nxt (nodes l)) (Some hd) as None"
    by (simp add: holds_def head)
  with path_cong [of as "nxt ?ns1" "nxt (nodes l)", OF nx]
  have p1: "path (nxt ?ns1) (Some hd) as None" by simp
  from h as have "backlinks (prv (nodes l)) (Some hd) rest"
    by (simp add: holds_def)
  with backlinks_cong [of rest "prv ?ns1" "prv (nodes l)", OF pv]
  have b1: "backlinks (prv ?ns1) (Some hd) rest" by simp
  have "holds ?l1 (?n # as)"
    using h p1 b1 nxn pvn pvh ne bound
    by (auto simp: holds_def as list_all_iff less_Suc_eq)
  moreover have "contents ?ns1 (?n # as) = obj # contents (nodes l) as"
    using contents_cong [of as ?ns1 "nodes l", OF pay] payn by (simp add: contents_def)
  ultimately show ?thesis using run by auto
qed


lemma insert_back:
  assumes h: "holds l (bs @ [t])"
  shows "\<exists>l1. LL_insertAtIndex l (int (length bs) + 1) obj = LL_audit l1 \<and>
           holds l1 (bs @ [t, length (nodes l)]) \<and>
           contents (nodes l1) (bs @ [t, length (nodes l)]) = contents (nodes l) (bs @ [t]) @ [obj] \<and>
           maxLength l1 = maxLength l"
proof -
  let ?n = "length (nodes l)"
  let ?as = "bs @ [t]"
  let ?ns' = "nodes l @ [LL_node obj]"
  from h have tail: "tail l = Some t" and len: "lengthL l = int (length bs) + 1"
    by (simp_all add: holds_def)
  let ?ns1 = "set_prev ?n (tail l) (set_next t (Some ?n) ?ns')"
  let ?l1 = "l\<lparr>nodes := ?ns1, tail := Some ?n, lengthL := lengthL l + 1\<rparr>"
  have run: "LL_insertAtIndex l (int (length bs) + 1) obj = LL_audit ?l1"
    using len by (simp add: LL_insertAtIndex_def Let_def tail)
  have bound: "\<And>a. a \<in> set ?as \<Longrightarrow> a < ?n" using holds_bound [OF h] by simp
  from h have tnotin: "t \<notin> set bs" by (simp add: holds_def)
  have nx: "\<And>a. a \<in> set bs \<Longrightarrow> nxt ?ns1 a = nxt (nodes l) a"
    using bound tnotin by (auto simp: nxt_set_next nxt_append)
  have nxt_t: "nxt ?ns1 t = Some ?n"
    using bound [of t] by (simp add: nxt_set_next)
  have nxn: "nxt ?ns1 ?n = None"
    using bound [of t] by (simp add: nxt_set_next nxt_append LL_node_def)
  have pvn: "prv ?ns1 ?n = Some t"
    by (simp add: prv_set_prev tail)
  have pv: "\<And>a. a \<in> set ?as \<Longrightarrow> prv ?ns1 a = prv (nodes l) a"
    using bound by (auto simp: prv_set_prev prv_append)
  have pay: "\<And>a. a \<in> set ?as \<Longrightarrow> payload (?ns1 ! a) = payload (nodes l ! a)"
    using bound by (auto simp: payload_append)
  have payn: "payload (?ns1 ! ?n) = obj"
    by (simp add: payload_append)
  from h have "path (nxt (nodes l)) (head l) bs (Some t)"
    by (simp add: holds_def path_snoc)
  with path_cong [of bs "nxt ?ns1" "nxt (nodes l)", OF nx]
  have p1: "path (nxt ?ns1) (head l) bs (Some t)" by simp
  from h have "backlinks (prv (nodes l)) None ?as"
    by (simp add: holds_def)
  with backlinks_cong [of ?as "prv ?ns1" "prv (nodes l)", OF pv]
  have b1: "backlinks (prv ?ns1) None ?as" by simp
  have "path (nxt ?ns1) (head l) (?as @ [?n]) None"
    using p1 nxt_t nxn by (simp add: path_append)
  moreover have "backlinks (prv ?ns1) None (?as @ [?n])"
    using b1 pvn by (subst backlinks_append) simp
  ultimately have "holds ?l1 (bs @ [t, ?n])"
    using h bound by (auto simp: holds_def list_all_iff less_Suc_eq)
  moreover have "contents ?ns1 (bs @ [t, ?n]) = contents (nodes l) ?as @ [obj]"
    using contents_cong [of ?as ?ns1 "nodes l", OF pay] payn by (simp add: contents_def)
  ultimately show ?thesis using run by auto
qed

lemma insert_middle:
  assumes h: "holds l (pre @ c # nx # post)"
  shows "\<exists>l1. LL_insertAtIndex l (int (length pre) + 1) obj = LL_audit l1 \<and>
           holds l1 (pre @ c # length (nodes l) # nx # post) \<and>
           contents (nodes l1) (pre @ c # length (nodes l) # nx # post)
             = contents (nodes l) (pre @ [c]) @ obj # contents (nodes l) (nx # post) \<and>
           maxLength l1 = maxLength l"
proof -
  let ?n = "length (nodes l)"
  let ?as = "pre @ c # nx # post"
  let ?ns' = "nodes l @ [LL_node obj]"
  from h have len: "lengthL l = int (length pre) + 2 + int (length post)"
    by (simp add: holds_def)
  have bound: "\<And>a. a \<in> set ?as \<Longrightarrow> a < ?n" using holds_bound [OF h] by simp
  from h have dist: "distinct ?as" by (simp add: holds_def)
  from h have pth: "path (nxt (nodes l)) (head l) ?as None" by (simp add: holds_def)
  have nx': "\<And>a. a \<in> set ?as \<Longrightarrow> nxt ?ns' a = nxt (nodes l) a"
    using bound by (auto simp: nxt_append)
  from pth path_cong [of ?as "nxt ?ns'" "nxt (nodes l)", OF nx']
  have pth': "path (nxt ?ns') (head l) ?as None" by simp
  have "walk ?ns' (head l) 0 (0 + 1 + int (length pre)) = Inr (Some (?as ! length pre))"
    by (rule walk_path [OF pth']) simp
  then have wk: "walk ?ns' (head l) 0 (int (length pre) + 1) = Inr (Some c)"
    by (simp add: add.commute)
  from pth have "nxt (nodes l) c = Some nx"
    by (auto simp: path_append)
  with nx' [of c] have nxc: "next (?ns' ! c) = Some nx"
    by (simp add: nxt_def)
  let ?ns1 = "set_next c (Some ?n) (set_prev ?n (Some c) (set_prev nx (Some ?n) (set_next ?n (Some nx) ?ns')))"
  let ?l1 = "l\<lparr>nodes := ?ns1, lengthL := lengthL l + 1\<rparr>"
  have run: "LL_insertAtIndex l (int (length pre) + 1) obj = LL_audit ?l1"
    using len wk nxc by (simp add: LL_insertAtIndex_def Let_def)
  have nx: "\<And>a. a \<in> set ?as \<Longrightarrow> a \<noteq> c \<Longrightarrow> nxt ?ns1 a = nxt (nodes l) a"
    using bound by (auto simp: nxt_set_next nxt_append)
  have nxt_c: "nxt ?ns1 c = Some ?n"
    using bound [of c] by (simp add: nxt_set_next)
  have nxn: "nxt ?ns1 ?n = Some nx"
    using bound [of c] by (simp add: nxt_set_next)
  have pvn: "prv ?ns1 ?n = Some c"
    by (simp add: prv_set_prev)
  have pvnx: "prv ?ns1 nx = Some ?n"
    using bound [of nx] by (simp add: prv_set_prev)
  have pv: "\<And>a. a \<in> set ?as \<Longrightarrow> a \<noteq> nx \<Longrightarrow> prv ?ns1 a = prv (nodes l) a"
    using bound by (auto simp: prv_set_prev prv_append)
  have pay: "\<And>a. a \<in> set ?as \<Longrightarrow> payload (?ns1 ! a) = payload (nodes l ! a)"
    using bound by (auto simp: payload_append)
  have payn: "payload (?ns1 ! ?n) = obj"
    by (simp add: payload_append)
  from pth have "path (nxt (nodes l)) (head l) pre (Some c)"
    and "path (nxt (nodes l)) (Some nx) (nx # post) None"
    by (auto simp: path_append)
  moreover have "path (nxt ?ns1) (head l) pre (Some c) = path (nxt (nodes l)) (head l) pre (Some c)"
    using dist by (intro path_cong nx) auto
  moreover have "path (nxt ?ns1) (Some nx) (nx # post) None = path (nxt (nodes l)) (Some nx) (nx # post) None"
    using dist by (intro path_cong nx) auto
  ultimately have p1: "path (nxt ?ns1) (head l) (pre @ c # ?n # nx # post) None"
    using nxt_c nxn by (simp add: path_append)
  from h have "backlinks (prv (nodes l)) None (pre @ [c])"
    and "backlinks (prv (nodes l)) (Some nx) post"
    by (simp_all add: holds_def backlinks_append)
  moreover have "backlinks (prv ?ns1) None (pre @ [c]) = backlinks (prv (nodes l)) None (pre @ [c])"
    using dist by (intro backlinks_cong pv) auto
  moreover have "backlinks (prv ?ns1) (Some nx) post = backlinks (prv (nodes l)) (Some nx) post"
    using dist by (intro backlinks_cong pv) auto
  ultimately have b1: "backlinks (prv ?ns1) None (pre @ c # ?n # nx # post)"
    using pvn pvnx backlinks_append [of "prv ?ns1" None "pre @ [c]" "?n # nx # post"] by simp
  have "holds ?l1 (pre @ c # ?n # nx # post)"
    using h p1 b1 bound by (auto simp: holds_def list_all_iff less_Suc_eq)
  moreover have "contents ?ns1 (pre @ c # ?n # nx # post)
        = contents (nodes l) (pre @ [c]) @ obj # contents (nodes l) (nx # post)"
    using pay payn by (simp add: contents_def)
  ultimately show ?thesis using run by auto
qed


lemma deleteLastNode_holds:
  assumes h: "holds l (bs @ [t])" and ne: "bs \<noteq> []"
  shows "\<exists>l'. LL_deleteLastNode l = Inr l' \<and> holds l' bs \<and>
           contents (nodes l') bs = contents (nodes l) bs \<and> maxLength l' = maxLength l"
proof -
  from ne obtain cs u where bs: "bs = cs @ [u]" by (cases bs rule: rev_cases) auto
  from h have tail: "tail l = Some t" by (simp add: holds_def)
  from h have pvt: "prev (nodes l ! t) = Some u"
    by (simp add: holds_def backlinks_append bs prv_def)
  let ?ns1 = "set_next u None (set_prev t None (nodes l))"
  let ?l1 = "l\<lparr>nodes := ?ns1, tail := Some u, lengthL := lengthL l - 1\<rparr>"
  have run: "LL_deleteLastNode l = Inr ?l1"
    by (simp add: LL_deleteLastNode_def tail pvt)
  have bound: "\<And>a. a \<in> set (bs @ [t]) \<Longrightarrow> a < length (nodes l)"
    using holds_bound [OF h] by simp
  from h have dist: "distinct (cs @ [u, t])" by (simp add: holds_def bs)
  have nx: "\<And>a. a \<in> set cs \<Longrightarrow> nxt ?ns1 a = nxt (nodes l) a"
    using dist by (auto simp: nxt_set_next)
  have nxu: "nxt ?ns1 u = None"
    using bound [of u] by (simp add: nxt_set_next bs)
  have pv: "\<And>a. a \<in> set bs \<Longrightarrow> prv ?ns1 a = prv (nodes l) a"
    using dist by (auto simp: prv_set_prev bs)
  from h have "path (nxt (nodes l)) (head l) cs (Some u)"
    by (auto simp: holds_def bs path_append)
  with path_cong [of cs "nxt ?ns1" "nxt (nodes l)", OF nx]
  have "path (nxt ?ns1) (head l) cs (Some u)" by simp
  with nxu have p1: "path (nxt ?ns1) (head l) bs None"
    by (simp add: bs path_snoc)
  from h have "backlinks (prv (nodes l)) None bs"
    by (simp add: holds_def backlinks_append)
  with backlinks_cong [of bs "prv ?ns1" "prv (nodes l)", OF pv]
  have b1: "backlinks (prv ?ns1) None bs" by simp
  have "holds ?l1 bs"
    using h p1 b1 by (auto simp: holds_def bs list_all_iff)
  moreover have "contents ?ns1 bs = contents (nodes l) bs"
    by (simp add: contents_def)
  ultimately show ?thesis using run by auto
qed

lemma audit_holds:
  assumes h: "holds l as" and k: "1 \<le> maxLength l" and len: "int (length as) \<le> maxLength l + 1"
  shows "\<exists>l'. LL_audit l = Inr l' \<and> holds l' (take (nat (maxLength l)) as) \<and>
           contents (nodes l') (take (nat (maxLength l)) as)
             = take (nat (maxLength l)) (contents (nodes l) as) \<and>
           maxLength l' = maxLength l"
proof (cases "lengthL l > maxLength l")
  case False
  with h have "take (nat (maxLength l)) as = as" by (simp add: holds_def)
  with False h show ?thesis by (simp add: LL_audit_def contents_def)
next
  case True
  from h have "lengthL l = int (length as)" by (simp add: holds_def)
  with True len k have n: "length as = Suc (nat (maxLength l))" by arith
  then obtain bs t where as: "as = bs @ [t]" by (cases as rule: rev_cases) auto
  with n k have ne: "bs \<noteq> []" and lb: "length bs = nat (maxLength l)" by auto
  from lb as have tk: "take (nat (maxLength l)) as = bs" by simp
  from lb as have tkc: "take (nat (maxLength l)) (contents (nodes l) as) = contents (nodes l) bs"
    by (simp add: contents_def)
  from deleteLastNode_holds [OF h [unfolded as] ne]
  obtain l' where "LL_deleteLastNode l = Inr l'" "holds l' bs"
    "contents (nodes l') bs = contents (nodes l) bs" "maxLength l' = maxLength l"
    by blast
  with True show ?thesis by (simp add: LL_audit_def tk tkc)
qed

lemma insertAtIndex_holds:
  assumes h: "holds l as" and ne: "as \<noteq> []" and i: "i \<le> length as"
  shows "\<exists>l1. LL_insertAtIndex l (int i) obj = LL_audit l1 \<and>
           holds l1 (take i as @ length (nodes l) # drop i as) \<and>
           contents (nodes l1) (take i as @ length (nodes l) # drop i as)
             = take i (contents (nodes l) as) @ obj # drop i (contents (nodes l) as) \<and>
           maxLength l1 = maxLength l"
proof -
  consider "i = 0" | "i = length as" "i \<noteq> 0" | "0 < i" "i < length as"
    using i by linarith
  then show ?thesis
  proof cases
    case 1
    with insert_front [OF h ne, of obj] show ?thesis by simp
  next
    case 2
    from ne obtain bs t where as: "as = bs @ [t]" by (cases as rule: rev_cases) auto
    from insert_back [OF h [unfolded as], of obj] 2 as show ?thesis
      by (simp add: contents_def add.commute)
  next
    case 3
    let ?pre = "take (i - 1) as"
    let ?post = "drop (Suc i) as"
    from 3 have as: "as = ?pre @ as ! (i - 1) # as ! i # ?post"
      using id_take_nth_drop [of "i - 1" as] Cons_nth_drop_Suc [of i as] by simp
    from 3 have lp: "length ?pre = i - 1" by simp
    have tk: "take i as = ?pre @ [as ! (i - 1)]"
      using 3 take_Suc_conv_app_nth [of "i - 1" as] by simp
    have dr: "drop i as = as ! i # ?post"
      using 3 Cons_nth_drop_Suc [of i as] by simp
    from h as have h': "holds l (?pre @ as ! (i - 1) # as ! i # ?post)" by simp
    from insert_middle [OF h', of obj] lp 3
    obtain l1 where l1: "LL_insertAtIndex l (int i) obj = LL_audit l1"
      "holds l1 (?pre @ as ! (i - 1) # length (nodes l) # as ! i # ?post)"
      "contents (nodes l1) (?pre @ as ! (i - 1) # length (nodes l) # as ! i # ?post)
         = contents (nodes l) (?pre @ [as ! (i - 1)]) @ obj # contents (nodes l) (as ! i # ?post)"
      "maxLength l1 = maxLength l"
      by (auto simp: of_nat_diff add.commute)
    have "take i (contents (nodes l) as) = contents (nodes l) (take i as)"
      and "drop i (contents (nodes l) as) = contents (nodes l) (drop i as)"
      by (simp_all add: contents_def take_map drop_map)
    with l1 tk dr show ?thesis by auto
  qed
qed


lemma holds_new: "holds (new_LinkedListInAlikeOrder k) []"
  by (simp add: holds_def new_LinkedListInAlikeOrder_def)

lemma holds_length: "holds l as \<Longrightarrow> lengthL l = int (length as)"
  by (simp add: holds_def)

lemma addNode_holds:
  assumes h: "holds l as" and k: "1 \<le> maxLength l" and len: "int (length as) \<le> maxLength l"
  shows "\<exists>l' as'. LL_addNode l obj = Inr l' \<and> holds l' as' \<and> maxLength l' = maxLength l \<and>
           contents (nodes l') as' = take (nat (maxLength l)) (place obj (contents (nodes l) as))"
proof (cases as)
  case Nil
  with h have head: "head l = None" and l0: "lengthL l = 0" by (simp_all add: holds_def)
  let ?n = "length (nodes l)"
  let ?l1 = "l\<lparr>nodes := nodes l @ [LL_node obj], head := Some ?n, tail := Some ?n,
                lengthL := lengthL l + 1\<rparr>"
  have h1: "holds ?l1 [?n]"
    by (simp add: holds_def l0 nxt_def prv_def LL_node_def)
  have c1: "contents (nodes ?l1) [?n] = [obj]"
    by (simp add: contents_def)
  from audit_holds [OF h1] k
  obtain l' where "LL_audit ?l1 = Inr l'" "holds l' (take (nat (maxLength l)) [?n])"
    "contents (nodes l') (take (nat (maxLength l)) [?n]) = take (nat (maxLength l)) (contents (nodes ?l1) [?n])"
    "maxLength l' = maxLength l"
    by auto
  with c1 Nil show ?thesis
    by (auto simp: LL_addNode_def head contents_def)
next
  case (Cons a rest)
  with h have head: "head l = Some a" by (simp add: holds_def)
  let ?cs = "contents (nodes l) as"
  let ?Q = "\<lambda>y. \<not> jle (alike y) (alike obj)"
  let ?i = "length (takeWhile ?Q ?cs)"
  from h have pth: "path (nxt (nodes l)) (head l) as None" by (simp add: holds_def)
  from getIndex_loop_path [OF pth, of 0 "alike obj"] len
  have idx: "LL_getIndex l (alike obj) = int ?i"
    by (simp add: LL_getIndex_def)
  have i: "?i \<le> length as"
    using length_takeWhile_le [of ?Q ?cs] by (simp add: contents_def)
  from Cons have ne: "as \<noteq> []" by simp
  from insertAtIndex_holds [OF h ne i, of obj]
  obtain l1 where l1: "LL_insertAtIndex l (int ?i) obj = LL_audit l1"
    "holds l1 (take ?i as @ length (nodes l) # drop ?i as)"
    "contents (nodes l1) (take ?i as @ length (nodes l) # drop ?i as)
       = take ?i ?cs @ obj # drop ?i ?cs"
    "maxLength l1 = maxLength l"
    by blast
  have pl: "place obj ?cs = take ?i ?cs @ obj # drop ?i ?cs"
    by (simp only: place_takeWhile takeWhile_eq_take [symmetric] dropWhile_eq_drop [symmetric])
  from len l1(4) have "int (length (take ?i as @ length (nodes l) # drop ?i as)) \<le> maxLength l1 + 1"
    using i by simp
  from audit_holds [OF l1(2) _ this] k l1(4)
  obtain l' where "LL_audit l1 = Inr l'"
    "holds l' (take (nat (maxLength l)) (take ?i as @ length (nodes l) # drop ?i as))"
    "contents (nodes l') (take (nat (maxLength l)) (take ?i as @ length (nodes l) # drop ?i as))
       = take (nat (maxLength l)) (contents (nodes l1) (take ?i as @ length (nodes l) # drop ?i as))"
    "maxLength l' = maxLength l"
    by auto
  with l1 pl idx show ?thesis
    by (auto simp: LL_addNode_def head)
qed

lemma take_Cons_take: "take j (y # take j ys) = take j (y # ys)"
  by (cases j) simp_all

lemma length_place [simp]: "length (place x ys) = Suc (length ys)"
  by (induction ys) simp_all

lemma take_place: "take k (place x (take k ys)) = take k (place x ys)"
proof (induction ys arbitrary: k)
  case Nil
  show ?case by simp
next
  case (Cons y ys)
  show ?case
  proof (cases k)
    case 0
    then show ?thesis by simp
  next
    case (Suc j)
    with Cons.IH [of j] show ?thesis by (simp add: take_Cons_take)
  qed
qed

lemma ranked_snoc: "ranked (xs @ [x]) = place x (ranked xs)"
  by (simp add: ranked_def)

lemma addNodes_snoc:
  "addNodes l (objs @ [obj]) = (case addNodes l objs of Inl e \<Rightarrow> Inl e | Inr l' \<Rightarrow> LL_addNode l' obj)"
  by (induction objs arbitrary: l) (auto split: sum.splits)

lemma addNodes_holds:
  assumes k: "1 \<le> k"
  shows "\<exists>l as. addNodes (new_LinkedListInAlikeOrder k) objs = Inr l \<and> holds l as \<and>
           maxLength l = k \<and> contents (nodes l) as = take (nat k) (ranked objs)"
proof (induction objs rule: rev_induct)
  case Nil
  show ?case
    using holds_new [of k]
    by (auto simp: ranked_def contents_def new_LinkedListInAlikeOrder_def intro!: exI [of _ "[]"])
next
  case (snoc obj objs)
  then obtain l as where run: "addNodes (new_LinkedListInAlikeOrder k) objs = Inr l"
    and h: "holds l as" and m: "maxLength l = k"
    and c: "contents (nodes l) as = take (nat k) (ranked objs)"
    by blast
  from c have "length (contents (nodes l) as) = length (take (nat k) (ranked objs))" by simp
  then have "length as \<le> nat k" by (simp add: contents_def)
  with k m have len: "int (length as) \<le> maxLength l" by simp
  from addNode_holds [OF h _ len, of obj] k m
  obtain l' as' where "LL_addNode l obj = Inr l'" "holds l' as'" "maxLength l' = k"
    "contents (nodes l') as' = take (nat k) (place obj (contents (nodes l) as))"
    by auto
  with run c show ?case
    by (auto simp: addNodes_snoc ranked_snoc take_place)
qed

lemma getArray_holds: "holds l as \<Longrightarrow> LL_getArray l = Some (map as_result (contents (nodes l) as))"
  using getArray_loop_path [of "nodes l" "head l" as "[]"]
  by (simp add: LL_getArray_def holds_def)

lemma length_ranked: "length (ranked xs) = length xs"
proof (induction xs rule: rev_induct)
  case Nil show ?case by (simp add: ranked_def)
next
  case (snoc x xs)
  then show ?case by (simp add: ranked_snoc)
qed

lemma ranker_run:
  assumes k: "1 \<le> k"
  shows "\<exists>l. addNodes (new_LinkedListInAlikeOrder k) objs = Inr l \<and>
           LL_getArray l = Some (map as_result (take (nat k) (ranked objs))) \<and>
           lengthL l = int (min (length objs) (nat k))"
proof -
  from addNodes_holds [OF k, of objs]
  obtain l as where run: "addNodes (new_LinkedListInAlikeOrder k) objs = Inr l"
    and h: "holds l as" and c: "contents (nodes l) as = take (nat k) (ranked objs)"
    by blast
  from c have "length (contents (nodes l) as) = length (take (nat k) (ranked objs))" by simp
  then have "length as = min (length objs) (nat k)"
    by (simp add: contents_def length_ranked)
  with run getArray_holds [OF h] holds_length [OF h] c show ?thesis by simp
qed

section \<open>What the ranker holds\<close>

text \<open>
  By \<open>ranker_run\<close> a ranker of capacity \<open>k\<close> fed \<open>objs\<close> holds the first \<open>k\<close> elements
  of \<open>ranked objs\<close>. What remains is about \<open>ranked\<close>: it permutes, it sorts, and among
  equal scores it puts the latest first.
\<close>

lemma jle_refl: "a \<noteq> NaN \<Longrightarrow> jle a a"
  by (cases a) simp_all

lemma jle_total: "a \<noteq> NaN \<Longrightarrow> b \<noteq> NaN \<Longrightarrow> \<not> jle a b \<Longrightarrow> jle b a"
  by (cases a; cases b) simp_all

lemma jle_trans: "jle a b \<Longrightarrow> jle b c \<Longrightarrow> jle a c"
  by (cases a; cases b; cases c) simp_all

lemma set_place [simp]: "set (place x ys) = insert x (set ys)"
  by (induction ys) auto

lemma mset_place [simp]: "mset (place x ys) = add_mset x (mset ys)"
  by (induction ys) simp_all

lemma mset_ranked [simp]: "mset (ranked xs) = mset xs"
  by (induction xs rule: rev_induct) (simp_all add: ranked_def)

lemma set_ranked [simp]: "set (ranked xs) = set xs"
  using mset_ranked [of xs] by (metis set_mset_mset)


lemma descending_place:
  "alike x \<noteq> NaN \<Longrightarrow> \<forall>y \<in> set ys. alike y \<noteq> NaN \<Longrightarrow> descending ys \<Longrightarrow> descending (place x ys)"
proof (induction ys)
  case Nil
  show ?case by (simp add: descending_def)
next
  case (Cons y ys)
  show ?case
  proof (cases "jle (alike y) (alike x)")
    case True
    with Cons.prems show ?thesis
      by (auto simp: descending_def intro: jle_trans)
  next
    case False
    with Cons.prems have "jle (alike x) (alike y)" by (simp add: jle_total)
    with False Cons show ?thesis by (auto simp: descending_def)
  qed
qed

lemma descending_ranked: "\<forall>x \<in> set xs. alike x \<noteq> NaN \<Longrightarrow> descending (ranked xs)"
proof (induction xs rule: rev_induct)
  case Nil
  show ?case by (simp add: ranked_def descending_def)
next
  case (snoc x xs)
  then show ?case by (simp add: ranked_snoc descending_place)
qed

lemma filter_place:
  "alike x \<noteq> NaN \<Longrightarrow>
   filter (\<lambda>c. alike c = v) (place x ys) =
     (if alike x = v then x # filter (\<lambda>c. alike c = v) ys else filter (\<lambda>c. alike c = v) ys)"
  by (induction ys) (auto simp: jle_refl)

lemma filter_ranked:
  "\<forall>x \<in> set xs. alike x \<noteq> NaN \<Longrightarrow>
   filter (\<lambda>c. alike c = v) (ranked xs) = rev (filter (\<lambda>c. alike c = v) xs)"
proof (induction xs rule: rev_induct)
  case Nil
  show ?case by (simp add: ranked_def)
next
  case (snoc x xs)
  then show ?case by (simp add: ranked_snoc filter_place)
qed

lemma filter_take_prefix: "filter P (take k xs) = take (length (filter P (take k xs))) (filter P xs)"
proof -
  have "filter P xs = filter P (take k xs) @ filter P (drop k xs)"
    by (metis append_take_drop_id filter_append)
  then show ?thesis by simp
qed

lemma prop_alike_as_result [simp]: "prop_alike (as_result c) = alike c"
  by (simp add: as_result_def)

lemma filter_as_result:
  "filter (\<lambda>x. prop_alike x = v) (map as_result cs) = map as_result (filter (\<lambda>c. alike c = v) cs)"
  by (simp add: filter_map comp_def)

lemmas ranker_defs = new_LinkedListInAlikeOrder_def LL_addNode_def LL_audit_def LL_node_def
  LL_getIndex_def LL_insertAtIndex_def LL_deleteLastNode_def set_next_def set_prev_def
  LL_getArray_def getArray_loop.simps Let_def

text \<open>
  Claim C2, as the code has it. \<open>_getIndex\<close> stops at the first node whose score is
  \<open><=\<close> the new one, so a new candidate goes in front of the stored candidates of the
  same score. For a ranker of capacity at least 1 fed candidates whose scores are not
  NaN, and for every score \<open>v\<close>: the stored candidates of score \<open>v\<close> are the ones
  inserted last, and they stand latest first. With capacity 2 and the scores
  0.3, 0.9, 0.1, 0.9 the result is the two 0.9s, the later one ahead of the earlier one.
\<close>

theorem ranker_ties_latest_first:
  "1 \<le> k \<Longrightarrow> \<forall>c \<in> set objs. alike c \<noteq> NaN \<Longrightarrow>
   \<exists>l array. addNodes (new_LinkedListInAlikeOrder k) objs = Inr l \<and> LL_getArray l = Some array \<and>
     (\<forall>v. filter (\<lambda>x. prop_alike x = v) array =
            take (length (filter (\<lambda>x. prop_alike x = v) array))
              (rev (filter (\<lambda>x. prop_alike x = v) (map as_result objs))))"
proof -
  assume k: "1 \<le> k" and ok: "\<forall>c \<in> set objs. alike c \<noteq> NaN"
  from ranker_run [OF k, of objs]
  obtain l where run: "addNodes (new_LinkedListInAlikeOrder k) objs = Inr l"
    and arr: "LL_getArray l = Some (map as_result (take (nat k) (ranked objs)))"
    by blast
  have "filter (\<lambda>x. prop_alike x = v) (map as_result (take (nat k) (ranked objs))) =
        take (length (filter (\<lambda>x. prop_alike x = v) (map as_result (take (nat k) (ranked objs)))))
          (rev (filter (\<lambda>x. prop_alike x = v) (map as_result objs)))" for v
    using filter_take_prefix [of "\<lambda>c. alike c = v" "nat k" "ranked objs"] filter_ranked [OF ok, of v]
    by (simp add: filter_as_result rev_map take_map)
  with run arr show ?thesis by blast
qed

text \<open>
  Claim C4. For a ranker of capacity \<open>k \<ge> 1\<close> fed candidates whose scores are not NaN,
  after any number \<open>n\<close> of the \<open>addNode\<close> calls: every call has returned, the stored
  candidates are sorted by score, highest first, there are at most \<open>k\<close> of them, exactly
  \<open>min n k\<close>, the \<open>length\<close> field says so, and they are the best of the \<open>n\<close>: they are
  among the candidates fed, and every candidate fed and not stored has a score \<open><=\<close> the
  score of each stored one.
\<close>

theorem ranker_invariant:
  "1 \<le> k \<Longrightarrow> \<forall>c \<in> set objs. alike c \<noteq> NaN \<Longrightarrow> n \<le> length objs \<Longrightarrow>
   \<exists>l array. addNodes (new_LinkedListInAlikeOrder k) (take n objs) = Inr l \<and>
     LL_getArray l = Some array \<and>
     sorted_wrt (\<lambda>x y. jle (prop_alike y) (prop_alike x)) array \<and>
     int (length array) \<le> k \<and>
     lengthL l = int (length array) \<and>
     length array = min n (nat k) \<and>
     mset array \<subseteq># mset (map as_result (take n objs)) \<and>
     (\<forall>x \<in># mset (map as_result (take n objs)) - mset array.
        \<forall>y \<in> set array. jle (prop_alike x) (prop_alike y))"
proof -
  assume k: "1 \<le> k" and ok: "\<forall>c \<in> set objs. alike c \<noteq> NaN" and n: "n \<le> length objs"
  let ?xs = "take n objs"
  let ?L = "ranked ?xs"
  let ?arr = "map as_result (take (nat k) ?L)"
  from ok have ok': "\<forall>c \<in> set ?xs. alike c \<noteq> NaN" by (auto dest: in_set_takeD)
  from ranker_run [OF k, of ?xs] n
  obtain l where run: "addNodes (new_LinkedListInAlikeOrder k) ?xs = Inr l"
    and arr: "LL_getArray l = Some ?arr"
    and len: "lengthL l = int (min n (nat k))"
    by auto
  from descending_ranked [OF ok']
  have "sorted_wrt (\<lambda>x y. jle (alike y) (alike x)) (take (nat k) ?L @ drop (nat k) ?L)"
    by (simp add: descending_def)
  then have st: "sorted_wrt (\<lambda>x y. jle (alike y) (alike x)) (take (nat k) ?L)"
    and cross: "\<forall>y \<in> set (take (nat k) ?L). \<forall>x \<in> set (drop (nat k) ?L). jle (alike x) (alike y)"
    unfolding sorted_wrt_append by blast+
  from st have sorted: "sorted_wrt (\<lambda>x y. jle (prop_alike y) (prop_alike x)) ?arr"
    by (simp add: sorted_wrt_map)
  have split: "?L = take (nat k) ?L @ drop (nat k) ?L" by simp
  have "mset (map as_result ?xs) = mset (map as_result ?L)"
    by (metis mset_map mset_ranked)
  also have "\<dots> = mset ?arr + mset (map as_result (drop (nat k) ?L))"
    by (metis split map_append mset_append)
  finally have ms: "mset (map as_result ?xs) = mset ?arr + mset (map as_result (drop (nat k) ?L))" .
  then have sub: "mset ?arr \<subseteq># mset (map as_result ?xs)" by simp
  from ms have rest: "mset (map as_result ?xs) - mset ?arr = mset (map as_result (drop (nat k) ?L))"
    by simp
  have top: "\<forall>x \<in># mset (map as_result ?xs) - mset ?arr. \<forall>y \<in> set ?arr. jle (prop_alike x) (prop_alike y)"
    unfolding rest using cross by auto
  have la: "length ?arr = min n (nat k)"
    using n by (simp add: length_ranked min.commute)
  with k have "int (length ?arr) \<le> k" by simp
  with run arr sorted len la sub top show ?thesis by auto
qed


text \<open>
  The claim as stated, with the earlier candidate ahead, fails on its own example: the
  candidate that arrived last (\<open>d\<close>) is ranked ahead of the earlier one (\<open>b\<close>).
\<close>

theorem ranker_ties_counterexample:
  "(case addNodes (new_LinkedListInAlikeOrder 2)
          [\<lparr>sentenceTwo = Str ''a'', alike = Num 0.3\<rparr>, \<lparr>sentenceTwo = Str ''b'', alike = Num 0.9\<rparr>,
           \<lparr>sentenceTwo = Str ''c'', alike = Num 0.1\<rparr>, \<lparr>sentenceTwo = Str ''d'', alike = Num 0.9\<rparr>] of
      Inl e \<Rightarrow> None | Inr l \<Rightarrow> LL_getArray l)
   = Some [Scored (Str ''d'') (Num 0.9), Scored (Str ''b'') (Num 0.9)]"
  by (simp add: ranker_defs)

theorem ranker_ties_latest_first_witness:
  "(1::int) \<le> 2 \<and>
   list_all (\<lambda>c. alike c \<noteq> NaN)
     [\<lparr>sentenceTwo = Str ''a'', alike = Num 0.3\<rparr>, \<lparr>sentenceTwo = Str ''b'', alike = Num 0.9\<rparr>,
      \<lparr>sentenceTwo = Str ''c'', alike = Num 0.1\<rparr>, \<lparr>sentenceTwo = Str ''d'', alike = Num 0.9\<rparr>] \<and>
   (\<exists>l. addNodes (new_LinkedListInAlikeOrder 2)
          [\<lparr>sentenceTwo = Str ''a'', alike = Num 0.3\<rparr>, \<lparr>sentenceTwo = Str ''b'', alike = Num 0.9\<rparr>,
           \<lparr>sentenceTwo = Str ''c'', alike = Num 0.1\<rparr>, \<lparr>sentenceTwo = Str ''d'', alike = Num 0.9\<rparr>] = Inr l \<and>
        LL_getArray l = Some [Scored (Str ''d'') (Num 0.9), Scored (Str ''b'') (Num 0.9)] \<and>
        filter (\<lambda>x. prop_alike x = Num 0.9) [Scored (Str ''d'') (Num 0.9), Scored (Str ''b'') (Num 0.9)]
          = take 2 (rev (filter (\<lambda>x. prop_alike x = Num 0.9)
              (map as_result [\<lparr>sentenceTwo = Str ''a'', alike = Num 0.3\<rparr>, \<lparr>sentenceTwo = Str ''b'', alike = Num 0.9\<rparr>,
           \<lparr>sentenceTwo = Str ''c'', alike = Num 0.1\<rparr>, \<lparr>sentenceTwo = Str ''d'', alike = Num 0.9\<rparr>]))))"
  using ranker_ties_latest_first [of 2
          "[\<lparr>sentenceTwo = Str ''a'', alike = Num 0.3\<rparr>, \<lparr>sentenceTwo = Str ''b'', alike = Num 0.9\<rparr>,
           \<lparr>sentenceTwo = Str ''c'', alike = Num 0.1\<rparr>, \<lparr>sentenceTwo = Str ''d'', alike = Num 0.9\<rparr>]"]
  by (simp add: ranker_defs as_result_def)

theorem ranker_invariant_witness:
  "(1::int) \<le> 2 \<and>
   list_all (\<lambda>c. alike c \<noteq> NaN)
     [\<lparr>sentenceTwo = Str ''a'', alike = Num 0.3\<rparr>, \<lparr>sentenceTwo = Str ''b'', alike = Num 0.9\<rparr>,
      \<lparr>sentenceTwo = Str ''c'', alike = Num 0.1\<rparr>, \<lparr>sentenceTwo = Str ''d'', alike = Num 0.9\<rparr>] \<and>
   (3::nat) \<le> length
     [\<lparr>sentenceTwo = Str ''a'', alike = Num 0.3\<rparr>, \<lparr>sentenceTwo = Str ''b'', alike = Num 0.9\<rparr>,
      \<lparr>sentenceTwo = Str ''c'', alike = Num 0.1\<rparr>, \<lparr>sentenceTwo = Str ''d'', alike = Num 0.9\<rparr>] \<and>
   (\<exists>l. addNodes (new_LinkedListInAlikeOrder 2)
          (take 3 [\<lparr>sentenceTwo = Str ''a'', alike = Num 0.3\<rparr>, \<lparr>sentenceTwo = Str ''b'', alike = Num 0.9\<rparr>,
           \<lparr>sentenceTwo = Str ''c'', alike = Num 0.1\<rparr>, \<lparr>sentenceTwo = Str ''d'', alike = Num 0.9\<rparr>]) = Inr l \<and>
        LL_getArray l = Some [Scored (Str ''b'') (Num 0.9), Scored (Str ''a'') (Num 0.3)] \<and>
        lengthL l = 2)"
  using ranker_invariant [of 2
          "[\<lparr>sentenceTwo = Str ''a'', alike = Num 0.3\<rparr>, \<lparr>sentenceTwo = Str ''b'', alike = Num 0.9\<rparr>,
           \<lparr>sentenceTwo = Str ''c'', alike = Num 0.1\<rparr>, \<lparr>sentenceTwo = Str ''d'', alike = Num 0.9\<rparr>]" 3]
  by (simp add: ranker_defs)

section \<open>Sorted results: arrayInOrder and getTop\<close>

text \<open>
  On uncached items and with a loaded model, the loops of \<open>compareSentenceToArray\<close> and
  \<open>getTop\<close> succeed exactly when the provider embeds the sentence and every item, and
  then the results are given by \<open>scored\<close>. That reduces the two claims of this section
  to facts about \<open>array_sort\<close> and \<open>ranked\<close>.
\<close>

text \<open>From here on the equations of the loops are unfolded by hand only.\<close>

declare cosine_loop.simps [simp del] compare_loop.simps [simp del] getTop_loop.simps [simp del]
  getCached_loop.simps [simp del] getIndex_loop.simps [simp del] walk.simps [simp del]

lemma calculate_cosine [simp]: "calculateCosineSimilarity (Some e1) (Some e2) = Inr (cosine e1 e2)"
  by (cases "cosine_loop e1 e2 0 (Num 0, Num 0, Num 0)")
     (simp add: calculateCosineSimilarity_def cosine_def del: cosine_loop.simps)

lemma classify_loaded:
  assumes m: "model s = Some p"
    and e1: "if d1 then c1 = Some e1 else p (Str sentence) = Some e1"
  shows "\<exists>s'. classify sentence t c1 d1 c2 False s =
            ((case p t of None \<Rightarrow> Inl ProviderError
              | Some e2 \<Rightarrow> Inr \<lparr>sentenceTwo = t, alike = cosine e1 e2,
                                sentenceOne = sentence, embedding1Cache = Some e1\<rparr>), s')
          \<and> arrays s' = arrays s \<and> model s' = model s"
  using m e1
  by (cases d1; cases "p t")
     (simp_all add: classify_def io_defs call_model_def similarity_of_def)

lemma classify_sentence_rejected:
  assumes m: "model s = Some p" and e1: "p (Str sentence) = None"
  shows "\<exists>s'. classify sentence t c1 False c2 False s = (Inl ProviderError, s')"
  using m e1 by (simp add: classify_def io_defs call_model_def)


lemma store_put_arrays:
  "a < length (arrays s) \<Longrightarrow> i < length (arrays s ! a) \<Longrightarrow>
   arrays (store_put a i v s) = (arrays s)[a := (arrays s ! a)[i := v] ]"
  by (simp add: store_put_def array_put_def)

lemma store_put_model [simp]: "model (store_put a i v s) = model s"
  by (simp add: store_put_def)

lemma compare_loop_ok:
  assumes m: "model s = Some p" and e1: "p (Str sentence) = Some e1"
    and c: "i \<noteq> 0 \<longrightarrow> cache = Some e1"
    and a: "a < length (arrays s)"
    and ok: "\<forall>x \<in> set (drop i (arrays s ! a)). p (text_of x) \<noteq> None"
  shows "\<exists>s'. compare_loop sentence False a i cache s = (Inr (), s') \<and>
           arrays s' = (arrays s)[a := take i (arrays s ! a) @
                          map (\<lambda>x. as_result (scored p e1 (text_of x))) (drop i (arrays s ! a))] \<and>
           model s' = model s"
  using assms
proof (induction "length (arrays s ! a) - i" arbitrary: i cache s)
  case 0
  then have "\<not> i < length (arrays s ! a)" by simp
  then show ?case
    by (subst compare_loop.simps) (simp add: list_update_same_conv)
next
  case (Suc n)
  let ?X = "arrays s ! a"
  from Suc.hyps(2) have i: "i < length ?X" by simp
  let ?t = "text_of (?X ! i)"
  from Suc.prems(5) i have "p ?t \<noteq> None"
    by (metis Cons_nth_drop_Suc list.set_intros(1))
  then obtain e2 where e2: "p ?t = Some e2" by auto
  have "if i \<noteq> 0 then cache = Some e1 else p (Str sentence) = Some e1"
    using Suc.prems(2,3) by simp
  from classify_loaded [OF Suc.prems(1) this, of ?t "prop_embedding (?X ! i)"] e2
  obtain s1 where cl: "classify sentence ?t cache (i \<noteq> 0) (prop_embedding (?X ! i)) False s =
        (Inr \<lparr>sentenceTwo = ?t, alike = cosine e1 e2, sentenceOne = sentence, embedding1Cache = Some e1\<rparr>, s1)"
    and ar: "arrays s1 = arrays s" and mo: "model s1 = model s"
    by auto
  let ?v = "Scored ?t (cosine e1 e2)"
  let ?s2 = "store_put a i ?v s1"
  have ar2: "arrays ?s2 = (arrays s)[a := ?X[i := ?v] ]"
    using store_put_arrays [of a s1 i ?v] ar Suc.prems(4) i by simp
  then have X2: "arrays ?s2 ! a = ?X[i := ?v]" using Suc.prems(4) by simp
  have n: "n = length (arrays ?s2 ! a) - (i + 1)" using Suc.hyps(2) X2 by simp
  have dr: "drop (i + 1) (arrays ?s2 ! a) = drop (Suc i) ?X"
    using X2 by (simp add: drop_update_cancel)
  have ok2: "\<forall>x \<in> set (drop (i + 1) (arrays ?s2 ! a)). p (text_of x) \<noteq> None"
    unfolding dr using Suc.prems(5) set_drop_subset_set_drop [of i "Suc i" ?X] by auto
  have m2: "model ?s2 = Some p" using mo Suc.prems(1) by simp
  have a2: "a < length (arrays ?s2)" using ar2 Suc.prems(4) by simp
  let ?cache' = "if i = 0 then Some e1 else cache"
  have c2: "i + 1 \<noteq> 0 \<longrightarrow> ?cache' = Some e1" using Suc.prems(3) by simp
  from Suc.hyps(1) [OF n m2 Suc.prems(2) c2 a2 ok2]
  obtain s' where run: "compare_loop sentence False a (i + 1) ?cache' ?s2 = (Inr (), s')"
    and ar': "arrays s' = (arrays ?s2)[a := take (i + 1) (arrays ?s2 ! a) @
                          map (\<lambda>x. as_result (scored p e1 (text_of x))) (drop (i + 1) (arrays ?s2 ! a))]"
    and mo': "model s' = model ?s2"
    by blast
  have tk: "take (i + 1) (arrays ?s2 ! a) = take i ?X @ [?v]"
    using X2 i by (simp add: take_Suc_conv_app_nth)
  have v: "as_result (scored p e1 ?t) = ?v"
    by (simp add: as_result_def scored_def e2)
  have "drop i ?X = ?X ! i # drop (Suc i) ?X"
    using i by (simp add: Cons_nth_drop_Suc)
  then have "take i ?X @ map (\<lambda>x. as_result (scored p e1 (text_of x))) (drop i ?X)
           = take i ?X @ [?v] @ map (\<lambda>x. as_result (scored p e1 (text_of x))) (drop (Suc i) ?X)"
    using v by simp
  with ar' tk dr ar2 have "arrays s' = (arrays s)[a := take i ?X @
                          map (\<lambda>x. as_result (scored p e1 (text_of x))) (drop i ?X)]"
    by simp
  moreover have "compare_loop sentence False a i cache s = (Inr (), s')"
    using i cl run by (subst compare_loop.simps) (cases "i = 0"; simp)
  ultimately show ?case using mo' m2 Suc.prems(1) by auto
qed


lemma compare_loop_embeds:
  assumes run: "compare_loop sentence False a i cache s = (Inr u, s')"
    and m: "model s = Some p" and e1: "p (Str sentence) = Some e1"
    and c: "i \<noteq> 0 \<longrightarrow> cache = Some e1"
    and a: "a < length (arrays s)"
  shows "\<forall>x \<in> set (drop i (arrays s ! a)). p (text_of x) \<noteq> None"
  using assms
proof (induction "length (arrays s ! a) - i" arbitrary: i cache s)
  case 0
  then show ?case by simp
next
  case (Suc n)
  let ?X = "arrays s ! a"
  from Suc.hyps(2) have i: "i < length ?X" by simp
  let ?t = "text_of (?X ! i)"
  have "if i \<noteq> 0 then cache = Some e1 else p (Str sentence) = Some e1"
    using Suc.prems(3,4) by simp
  from classify_loaded [OF Suc.prems(2) this, of ?t "prop_embedding (?X ! i)"]
  obtain s1 where cl: "classify sentence ?t cache (i \<noteq> 0) (prop_embedding (?X ! i)) False s =
        ((case p ?t of None \<Rightarrow> Inl ProviderError
          | Some e2 \<Rightarrow> Inr \<lparr>sentenceTwo = ?t, alike = cosine e1 e2,
                            sentenceOne = sentence, embedding1Cache = Some e1\<rparr>), s1)"
    and ar: "arrays s1 = arrays s" and mo: "model s1 = model s"
    by auto
  have pt: "p ?t \<noteq> None"
  proof
    assume "p ?t = None"
    with cl i have "compare_loop sentence False a i cache s = (Inl ProviderError, s1)"
      by (subst compare_loop.simps) simp
    with Suc.prems(1) show False by simp
  qed
  then obtain e2 where e2: "p ?t = Some e2" by auto
  let ?v = "Scored ?t (cosine e1 e2)"
  let ?s2 = "store_put a i ?v s1"
  let ?cache' = "if i = 0 then Some e1 else cache"
  have ar2: "arrays ?s2 = (arrays s)[a := ?X[i := ?v] ]"
    using store_put_arrays [of a s1 i ?v] ar Suc.prems(5) i by simp
  then have X2: "arrays ?s2 ! a = ?X[i := ?v]" using Suc.prems(5) by simp
  have n: "n = length (arrays ?s2 ! a) - (i + 1)" using Suc.hyps(2) X2 by simp
  have dr: "drop (i + 1) (arrays ?s2 ! a) = drop (Suc i) ?X"
    using X2 by (simp add: drop_update_cancel)
  have run2: "compare_loop sentence False a (i + 1) ?cache' ?s2 = (Inr u, s')"
    using Suc.prems(1) i cl e2 by (subst (asm) compare_loop.simps) (cases "i = 0"; simp)
  have m2: "model ?s2 = Some p" using mo Suc.prems(2) by simp
  have a2: "a < length (arrays ?s2)" using ar2 Suc.prems(5) by simp
  have c2: "i + 1 \<noteq> 0 \<longrightarrow> ?cache' = Some e1" using Suc.prems(4) by simp
  from Suc.hyps(1) [OF n run2 m2 Suc.prems(3) c2 a2]
  have "\<forall>x \<in> set (drop (Suc i) ?X). p (text_of x) \<noteq> None" unfolding dr by simp
  moreover have "drop i ?X = ?X ! i # drop (Suc i) ?X"
    using i by (simp add: Cons_nth_drop_Suc)
  ultimately show ?case using pt by simp
qed

lemma compare_loop_sentence:
  assumes run: "compare_loop sentence False a 0 None s = (Inr u, s')"
    and m: "model s = Some p" and ne: "arrays s ! a \<noteq> []"
  shows "p (Str sentence) \<noteq> None"
proof
  assume "p (Str sentence) = None"
  from classify_sentence_rejected [OF m this]
  obtain s1 where "classify sentence (text_of (arrays s ! a ! 0)) None False
      (prop_embedding (arrays s ! a ! 0)) False s = (Inl ProviderError, s1)"
    by blast
  with ne have "compare_loop sentence False a 0 None s = (Inl ProviderError, s1)"
    by (subst compare_loop.simps) simp
  with run show False by simp
qed

text \<open>What a successful \<open>compareSentenceToArray\<close> on uncached items has computed.\<close>

lemma compare_result:
  assumes run: "compareSentenceToArray sentence a False s = (Inr (x, r), s1)"
    and a: "a < length (arrays s)"
  shows "\<exists>p e1. model s = Some p \<and> (arrays s ! a \<noteq> [] \<longrightarrow> p (Str sentence) = Some e1) \<and>
           (\<forall>x \<in> set (arrays s ! a). p (text_of x) \<noteq> None) \<and>
           x = sentence \<and> r = length (arrays s) \<and>
           arrays s1 = arrays s @ [map (\<lambda>x. as_result (scored p e1 (text_of x))) (arrays s ! a)] \<and>
           model s1 = model s"
proof -
  from run obtain p where m: "model s = Some p"
    by (cases "model s") (auto simp: compareSentenceToArray_def io_defs)
  let ?X = "arrays s ! a"
  let ?s0 = "s\<lparr>arrays := arrays s @ [?X]\<rparr>"
  let ?n = "length (arrays s)"
  from run m obtain u where loop: "compare_loop sentence False ?n 0 None ?s0 = (Inr u, s1)"
    and x: "x = sentence" and r: "r = ?n"
    by (auto simp: compareSentenceToArray_def io_defs split: prod.splits sum.splits)
  have m0: "model ?s0 = Some p" using m by simp
  have X0: "arrays ?s0 ! ?n = ?X" by simp
  have n0: "?n < length (arrays ?s0)" by simp
  show ?thesis
  proof (cases "?X = []")
    case True
    with loop have "s1 = ?s0" by (subst (asm) compare_loop.simps) simp
    with True m x r show ?thesis by simp
  next
    case False
    with compare_loop_sentence [OF loop m0] obtain e1 where e1: "p (Str sentence) = Some e1"
      by auto
    from compare_loop_embeds [OF loop m0 e1 _ n0]
    have ok: "\<forall>x \<in> set (drop 0 (arrays ?s0 ! ?n)). p (text_of x) \<noteq> None" by simp
    from compare_loop_ok [OF m0 e1 _ n0 ok, of None] loop
    have "arrays s1 = (arrays ?s0)[?n := map (\<lambda>x. as_result (scored p e1 (text_of x))) ?X]"
      and "model s1 = model ?s0"
      by auto
    with m e1 ok x r show ?thesis by auto
  qed
qed

lemma compare_succeeds:
  assumes m: "model s = Some p"
    and e1: "arrays s ! a \<noteq> [] \<longrightarrow> p (Str sentence) = Some e1"
    and ok: "\<forall>x \<in> set (arrays s ! a). p (text_of x) \<noteq> None"
  shows "\<exists>s1. compareSentenceToArray sentence a False s = (Inr (sentence, length (arrays s)), s1) \<and>
           arrays s1 = arrays s @ [map (\<lambda>x. as_result (scored p e1 (text_of x))) (arrays s ! a)] \<and>
           model s1 = model s"
proof -
  let ?X = "arrays s ! a"
  let ?s0 = "s\<lparr>arrays := arrays s @ [?X]\<rparr>"
  let ?n = "length (arrays s)"
  have m0: "model ?s0 = Some p" using m by simp
  have n0: "?n < length (arrays ?s0)" by simp
  show ?thesis
  proof (cases "?X = []")
    case True
    then have "compare_loop sentence False ?n 0 None ?s0 = (Inr (), ?s0)"
      by (subst compare_loop.simps) simp
    with True m show ?thesis by (simp add: compareSentenceToArray_def io_defs)
  next
    case False
    with e1 have e: "p (Str sentence) = Some e1" by simp
    have ok0: "\<forall>x \<in> set (drop 0 (arrays ?s0 ! ?n)). p (text_of x) \<noteq> None" using ok by simp
    from compare_loop_ok [OF m0 e _ n0 ok0, of None]
    obtain s1 where "compare_loop sentence False ?n 0 None ?s0 = (Inr (), s1)"
      "arrays s1 = (arrays ?s0)[?n := map (\<lambda>x. as_result (scored p e1 (text_of x))) ?X]"
      "model s1 = model ?s0"
      by auto
    with m show ?thesis by (simp add: compareSentenceToArray_def io_defs)
  qed
qed


lemma positive_by_alike:
  "prop_alike x \<noteq> NaN \<Longrightarrow> prop_alike y \<noteq> NaN \<Longrightarrow>
   positive (by_alike y x) \<longleftrightarrow> \<not> jle (prop_alike x) (prop_alike y)"
  by (cases "prop_alike x"; cases "prop_alike y") (auto simp: by_alike_def jsub_def)

lemma array_sort_snoc: "array_sort c (xs @ [x]) = sort_insert c x (array_sort c xs)"
  by (simp add: array_sort_def)

lemma mset_sort_insert [simp]: "mset (sort_insert c x ys) = add_mset x (mset ys)"
  by (induction ys) simp_all

lemma mset_array_sort [simp]: "mset (array_sort c xs) = mset xs"
  by (induction xs rule: rev_induct) (simp_all add: array_sort_snoc, simp add: array_sort_def)

lemma set_sort_insert [simp]: "set (sort_insert c x ys) = insert x (set ys)"
  by (induction ys) auto

lemma set_array_sort [simp]: "set (array_sort c xs) = set xs"
  using mset_array_sort [of c xs] by (metis set_mset_mset)

lemma sorted_sort_insert:
  assumes "prop_alike x \<noteq> NaN" and "\<forall>y \<in> set ys. prop_alike y \<noteq> NaN"
    and "sorted_wrt (\<lambda>y z. jle (prop_alike z) (prop_alike y)) ys"
  shows "sorted_wrt (\<lambda>y z. jle (prop_alike z) (prop_alike y)) (sort_insert by_alike x ys)"
  using assms
proof (induction ys)
  case Nil
  show ?case by simp
next
  case (Cons y ys)
  show ?case
  proof (cases "positive (by_alike y x)")
    case True
    with Cons.prems have "\<not> jle (prop_alike x) (prop_alike y)"
      by (simp add: positive_by_alike)
    with Cons.prems have "jle (prop_alike y) (prop_alike x)" by (simp add: jle_total)
    with True Cons.prems show ?thesis by (auto intro: jle_trans)
  next
    case False
    with Cons.prems have "jle (prop_alike x) (prop_alike y)"
      by (simp add: positive_by_alike)
    with False Cons show ?thesis by auto
  qed
qed

lemma sorted_array_sort:
  "\<forall>y \<in> set xs. prop_alike y \<noteq> NaN \<Longrightarrow>
   sorted_wrt (\<lambda>y z. jle (prop_alike z) (prop_alike y)) (array_sort by_alike xs)"
proof (induction xs rule: rev_induct)
  case Nil
  show ?case by (simp add: array_sort_def)
next
  case (snoc x xs)
  then show ?case by (simp add: array_sort_snoc sorted_sort_insert)
qed

lemma jle_antisym: "jle a b \<Longrightarrow> jle b a \<Longrightarrow> a = b"
  by (cases a; cases b) simp_all

lemma filter_sort_insert:
  assumes "prop_alike x \<noteq> NaN" and "\<forall>y \<in> set ys. prop_alike y \<noteq> NaN"
    and "sorted_wrt (\<lambda>y z. jle (prop_alike z) (prop_alike y)) ys"
  shows "filter (\<lambda>y. prop_alike y = v) (sort_insert by_alike x ys) =
         filter (\<lambda>y. prop_alike y = v) ys @ (if prop_alike x = v then [x] else [])"
  using assms
proof (induction ys)
  case Nil
  show ?case by simp
next
  case (Cons y ys)
  show ?case
  proof (cases "positive (by_alike y x)")
    case True
    with Cons.prems have less: "\<not> jle (prop_alike x) (prop_alike y)"
      by (simp add: positive_by_alike)
    have "prop_alike z \<noteq> prop_alike x" if "z \<in> set (y # ys)" for z
    proof
      assume eq: "prop_alike z = prop_alike x"
      from that Cons.prems(3) have "jle (prop_alike z) (prop_alike y)"
        using Cons.prems(2) by (auto simp: jle_refl)
      with eq less show False by simp
    qed
    then have "prop_alike x = v \<Longrightarrow> filter (\<lambda>y. prop_alike y = v) (y # ys) = []"
      by (auto simp: filter_empty_conv)
    with True show ?thesis by auto
  next
    case False
    with Cons show ?thesis by simp
  qed
qed

lemma filter_array_sort:
  "\<forall>y \<in> set xs. prop_alike y \<noteq> NaN \<Longrightarrow>
   filter (\<lambda>y. prop_alike y = v) (array_sort by_alike xs) = filter (\<lambda>y. prop_alike y = v) xs"
proof (induction xs rule: rev_induct)
  case Nil
  show ?case by (simp add: array_sort_def)
next
  case (snoc x xs)
  then show ?case
    by (simp add: array_sort_snoc filter_sort_insert sorted_array_sort)
qed

text \<open>\<open>arrayInOrder\<close> returns what \<open>compareSentenceToArray\<close> returns, sorted.\<close>

lemma arrayInOrder_result:
  assumes run: "compareSentenceToArray sentence a False s = (Inr (x, r), s1)"
    and a: "a < length (arrays s)"
  shows "\<exists>s2. arrayInOrder sentence a s = (Inr (sentence, Suc (length (arrays s))), s2) \<and>
           arrays s2 = arrays s @ [arrays s ! a, array_sort by_alike (arrays s1 ! r)]"
proof -
  from compare_result [OF run a]
  obtain p e1 where m: "model s = Some p"
    and e1: "arrays s ! a \<noteq> [] \<longrightarrow> p (Str sentence) = Some e1"
    and ok: "\<forall>x \<in> set (arrays s ! a). p (text_of x) \<noteq> None"
    and r: "r = length (arrays s)"
    and R: "arrays s1 = arrays s @ [map (\<lambda>x. as_result (scored p e1 (text_of x))) (arrays s ! a)]"
    by blast
  let ?X = "arrays s ! a"
  let ?s0 = "s\<lparr>arrays := arrays s @ [?X]\<rparr>"
  let ?n = "length (arrays s)"
  have X0: "arrays ?s0 ! ?n = ?X" by simp
  from compare_succeeds [of ?s0 p ?n sentence e1] m e1 ok X0
  obtain s1' where run': "compareSentenceToArray sentence ?n False ?s0 = (Inr (sentence, Suc ?n), s1')"
    and R': "arrays s1' = arrays ?s0 @ [map (\<lambda>x. as_result (scored p e1 (text_of x))) ?X]"
    by auto
  from R r have "arrays s1 ! r = map (\<lambda>x. as_result (scored p e1 (text_of x))) ?X" by simp
  with m run' R' show ?thesis
    by (simp add: arrayInOrder_def io_defs sort_in_place_def list_update_append nth_append)
qed

text \<open>
  Claim C5. When \<open>compareSentenceToArray(text, items, false)\<close> returns and none of its
  scores is NaN, \<open>arrayInOrder(text, items)\<close> returns too, and its result array is a
  permutation of that result, sorted by score, highest first, in which the entries of
  each score keep the order they had (the sort is stable).
\<close>

theorem arrayInOrder_sorts:
  "a < length (arrays s) \<Longrightarrow>
   compareSentenceToArray sentence a False s = (Inr (x, r), s1) \<Longrightarrow>
   \<forall>y \<in> set (arrays s1 ! r). prop_alike y \<noteq> NaN \<Longrightarrow>
   \<exists>r' s2. arrayInOrder sentence a s = (Inr (sentence, r'), s2) \<and>
     mset (arrays s2 ! r') = mset (arrays s1 ! r) \<and>
     sorted_wrt (\<lambda>y z. jle (prop_alike z) (prop_alike y)) (arrays s2 ! r') \<and>
     (\<forall>v. filter (\<lambda>y. prop_alike y = v) (arrays s2 ! r') = filter (\<lambda>y. prop_alike y = v) (arrays s1 ! r))"
proof -
  assume a: "a < length (arrays s)"
    and run: "compareSentenceToArray sentence a False s = (Inr (x, r), s1)"
    and ok: "\<forall>y \<in> set (arrays s1 ! r). prop_alike y \<noteq> NaN"
  from arrayInOrder_result [OF run a]
  obtain s2 where "arrayInOrder sentence a s = (Inr (sentence, Suc (length (arrays s))), s2)"
    and "arrays s2 ! Suc (length (arrays s)) = array_sort by_alike (arrays s1 ! r)"
    by (auto simp: nth_append)
  with sorted_array_sort [OF ok] filter_array_sort [OF ok] show ?thesis
    by auto
qed


lemma getTop_loop_run:
  assumes m: "model s = Some p" and e1: "p (Str sentence) = Some e1"
    and c: "i \<noteq> 0 \<longrightarrow> cache = Some e1"
    and ok: "\<forall>x \<in> set (drop i (arrays s ! a)). p x \<noteq> None"
  shows "\<exists>s'. getTop_loop sentence a i cache list s =
              ((case addNodes list (map (scored p e1) (drop i (arrays s ! a))) of
                  Inl e \<Rightarrow> Inl e | Inr l \<Rightarrow> Inr l), s')
           \<and> arrays s' = arrays s"
  using assms
proof (induction "length (arrays s ! a) - i" arbitrary: i cache list s)
  case 0
  then have "\<not> i < length (arrays s ! a)" by simp
  then show ?case by (subst getTop_loop.simps) simp
next
  case (Suc n)
  let ?X = "arrays s ! a"
  from Suc.hyps(2) have i: "i < length ?X" by simp
  have dr: "drop i ?X = ?X ! i # drop (Suc i) ?X"
    using i by (simp add: Cons_nth_drop_Suc)
  with Suc.prems(4) obtain e2 where e2: "p (?X ! i) = Some e2" by auto
  have "if i \<noteq> 0 then cache = Some e1 else p (Str sentence) = Some e1"
    using Suc.prems(2,3) by simp
  from classify_loaded [OF Suc.prems(1) this, of "?X ! i" None] e2
  obtain s1 where cl: "classify sentence (?X ! i) cache (i \<noteq> 0) None False s =
        (Inr \<lparr>sentenceTwo = ?X ! i, alike = cosine e1 e2, sentenceOne = sentence, embedding1Cache = Some e1\<rparr>, s1)"
    and ar: "arrays s1 = arrays s" and mo: "model s1 = model s"
    by auto
  have sc: "scored p e1 (?X ! i) = \<lparr>sentenceTwo = ?X ! i, alike = cosine e1 e2\<rparr>"
    by (simp add: scored_def e2)
  have feed: "addNodes list (map (scored p e1) (drop i ?X)) =
      (case LL_addNode list (scored p e1 (?X ! i)) of
         Inl e \<Rightarrow> Inl e
       | Inr list' \<Rightarrow> addNodes list' (map (scored p e1) (drop (Suc i) ?X)))"
    by (subst dr) simp
  show ?case
  proof (cases "LL_addNode list (scored p e1 (?X ! i))")
    case (Inl e)
    with i cl sc ar feed show ?thesis
      by (subst getTop_loop.simps) simp
  next
    case (Inr list')
    let ?cache' = "if i = 0 then Some e1 else cache"
    from Suc.hyps(2) ar have n: "n = length (arrays s1 ! a) - (i + 1)" by simp
    have m1: "model s1 = Some p" using mo Suc.prems(1) by simp
    have c1: "i + 1 \<noteq> 0 \<longrightarrow> ?cache' = Some e1" using Suc.prems(3) by simp
    have ok1: "\<forall>x \<in> set (drop (i + 1) (arrays s1 ! a)). p x \<noteq> None"
      using Suc.prems(4) ar dr by simp
    from Suc.hyps(1) [OF n m1 Suc.prems(2) c1 ok1, of list']
    obtain s' where "getTop_loop sentence a (i + 1) ?cache' list' s1 =
              ((case addNodes list' (map (scored p e1) (drop (i + 1) (arrays s1 ! a))) of
                  Inl e \<Rightarrow> Inl e | Inr l \<Rightarrow> Inr l), s')"
      and "arrays s' = arrays s1"
      by blast
    with i cl sc ar Inr feed show ?thesis
      by (subst getTop_loop.simps) (cases "i = 0"; simp)
  qed
qed

lemma getTop_result:
  assumes m: "model s = Some p" and k: "0 < k" and a: "a < length (arrays s)"
    and ne: "arrays s ! a \<noteq> []"
    and e1: "p (Str sentence) = Some e1"
    and ok: "\<forall>x \<in> set (arrays s ! a). p x \<noteq> None"
  shows "\<exists>s2. getTop sentence a k s = Some (Inr (sentence, Suc (length (arrays s))), s2) \<and>
           arrays s2 = arrays s @ [arrays s ! a,
              map as_result (take (nat k) (ranked (map (scored p e1) (arrays s ! a))))]"
proof -
  let ?X = "arrays s ! a"
  let ?s1 = "s\<lparr>arrays := arrays s @ [?X]\<rparr>"
  let ?k = "min k (int (length ?X))"
  let ?cs = "map (scored p e1) ?X"
  from k ne have k1: "1 \<le> ?k" by (cases ?X) simp_all
  have Xa: "arrays ?s1 ! a = ?X" using a by (simp add: nth_append)
  from ranker_run [OF k1, of ?cs]
  obtain l where feed: "addNodes (new_LinkedListInAlikeOrder ?k) ?cs = Inr l"
    and arr: "LL_getArray l = Some (map as_result (take (nat ?k) (ranked ?cs)))"
    by blast
  have "nat ?k = min (nat k) (length ?X)" using k by arith
  then have "take (nat ?k) (ranked ?cs) = take (nat k) (ranked ?cs)"
    by (simp add: min_def length_ranked)
  with arr have arr': "LL_getArray l = Some (map as_result (take (nat k) (ranked ?cs)))" by simp
  have m1: "model ?s1 = Some p" using m by simp
  have ok1: "\<forall>x \<in> set (drop 0 (arrays ?s1 ! a)). p x \<noteq> None" using ok Xa by simp
  from getTop_loop_run [OF m1 e1 _ ok1, of None "new_LinkedListInAlikeOrder ?k"] feed Xa
  obtain s' where loop: "getTop_loop sentence a 0 None (new_LinkedListInAlikeOrder ?k) ?s1 = (Inr l, s')"
    and ar: "arrays s' = arrays ?s1"
    by auto
  from m k loop arr' ar show ?thesis
    by (simp add: getTop_def io_defs)
qed


lemma arrayInOrder_inv:
  assumes run: "arrayInOrder sentence a s = (Inr (x, r), s1)" and a: "a < length (arrays s)"
  shows "\<exists>p e1. model s = Some p \<and> (arrays s ! a \<noteq> [] \<longrightarrow> p (Str sentence) = Some e1) \<and>
           (\<forall>x \<in> set (arrays s ! a). p (text_of x) \<noteq> None) \<and>
           arrays s1 ! r = array_sort by_alike
              (map (\<lambda>x. as_result (scored p e1 (text_of x))) (arrays s ! a))"
proof -
  let ?X = "arrays s ! a"
  let ?s0 = "s\<lparr>arrays := arrays s @ [?X]\<rparr>"
  let ?n = "length (arrays s)"
  from run obtain p where m: "model s = Some p"
    by (cases "model s") (auto simp: arrayInOrder_def io_defs)
  from run m obtain x' r' s' where c: "compareSentenceToArray sentence ?n False ?s0 = (Inr (x', r'), s')"
    and r: "r = r'" and s1: "arrays s1 = (arrays s')[r' := array_sort by_alike (arrays s' ! r')]"
    by (auto simp: arrayInOrder_def io_defs sort_in_place_def split: prod.splits sum.splits)
  have n0: "?n < length (arrays ?s0)" by simp
  from compare_result [OF c n0]
  obtain q e1 where "model ?s0 = Some q"
    and e1: "arrays ?s0 ! ?n \<noteq> [] \<longrightarrow> q (Str sentence) = Some e1"
    and ok: "\<forall>x \<in> set (arrays ?s0 ! ?n). q (text_of x) \<noteq> None"
    and r': "r' = length (arrays ?s0)"
    and R: "arrays s' = arrays ?s0 @ [map (\<lambda>x. as_result (scored q e1 (text_of x))) (arrays ?s0 ! ?n)]"
    by blast
  with m have q: "q = p" by simp
  from R r' s1 r have "arrays s1 ! r = array_sort by_alike
      (map (\<lambda>x. as_result (scored q e1 (text_of x))) ?X)"
    by (simp add: nth_append)
  with m e1 ok q show ?thesis by auto
qed

lemma sorted_numbers_unique:
  "sorted_wrt (\<lambda>a b. jle b a) xs \<Longrightarrow> sorted_wrt (\<lambda>a b. jle b a) ys \<Longrightarrow> mset xs = mset ys \<Longrightarrow>
   xs = ys"
proof (induction xs arbitrary: ys)
  case Nil
  then show ?case by simp
next
  case (Cons x xs)
  then obtain y ys' where ys: "ys = y # ys'" by (cases ys) auto
  have xy: "x = y"
  proof (rule ccontr)
    assume neq: "x \<noteq> y"
    from Cons.prems(3) ys have "x \<in># mset (y # ys')" and "y \<in># mset (x # xs)"
      by (metis list.set_intros(1) set_mset_mset)+
    with neq have "x \<in> set ys'" and "y \<in> set xs" by auto
    with Cons.prems(1,2) ys have "jle x y" and "jle y x" by auto
    with neq show False by (auto dest: jle_antisym)
  qed
  with Cons.prems ys have "mset xs = mset ys'" by simp
  with Cons.IH [of ys'] Cons.prems(1,2) ys xy show ?case by simp
qed

lemma text_of_Str [simp]: "text_of (Str t) = Str t"
  by (simp add: text_of_def)

lemma alike_scored [simp]: "alike (scored p e1 t) = cosine e1 (the (p t))"
  by (simp add: scored_def)

text \<open>
  Claim C3, as the code has it. For an array of strings and \<open>k > 0\<close>, when
  \<open>arrayInOrder(text, items)\<close> returns and none of its scores is NaN, \<open>getTop(text,
  items, k)\<close> returns \<open>min k items.length\<close> results, and their scores are the scores
  of the first \<open>k\<close> results of \<open>arrayInOrder\<close>, in the same order. When no two
  results have the same score, the result array of \<open>getTop\<close> is the first \<open>k\<close>
  elements of the result array of \<open>arrayInOrder\<close>.
\<close>

theorem getTop_prefix_of_arrayInOrder:
  "a < length (arrays s) \<Longrightarrow> \<forall>x \<in> set (arrays s ! a). \<exists>t. x = Str t \<Longrightarrow> 0 < k \<Longrightarrow>
   arrayInOrder sentence a s = (Inr (x, r), s1) \<Longrightarrow>
   \<forall>y \<in> set (arrays s1 ! r). prop_alike y \<noteq> NaN \<Longrightarrow>
   \<exists>r' s2. getTop sentence a k s = Some (Inr (sentence, r'), s2) \<and>
     length (arrays s2 ! r') = min (nat k) (length (arrays s ! a)) \<and>
     map prop_alike (arrays s2 ! r') = take (nat k) (map prop_alike (arrays s1 ! r)) \<and>
     (distinct (map prop_alike (arrays s1 ! r)) \<longrightarrow> arrays s2 ! r' = take (nat k) (arrays s1 ! r))"
proof -
  assume a: "a < length (arrays s)" and strs: "\<forall>x \<in> set (arrays s ! a). \<exists>t. x = Str t"
    and k: "0 < k" and run: "arrayInOrder sentence a s = (Inr (x, r), s1)"
    and nan: "\<forall>y \<in> set (arrays s1 ! r). prop_alike y \<noteq> NaN"
  let ?X = "arrays s ! a"
  from arrayInOrder_inv [OF run a]
  obtain p e1 where m: "model s = Some p"
    and e1: "?X \<noteq> [] \<longrightarrow> p (Str sentence) = Some e1"
    and ok: "\<forall>x \<in> set ?X. p (text_of x) \<noteq> None"
    and A: "arrays s1 ! r = array_sort by_alike (map (\<lambda>x. as_result (scored p e1 (text_of x))) ?X)"
    by blast
  let ?cs = "map (scored p e1) ?X"
  from strs have tx: "\<And>x. x \<in> set ?X \<Longrightarrow> text_of x = x" by auto
  then have R: "map (\<lambda>x. as_result (scored p e1 (text_of x))) ?X = map as_result ?cs" by simp
  let ?A = "array_sort by_alike (map as_result ?cs)"
  let ?G = "map as_result (take (nat k) (ranked ?cs))"
  from A R have A': "arrays s1 ! r = ?A" by simp
  from nan A' have nanR: "\<forall>y \<in> set (map as_result ?cs). prop_alike y \<noteq> NaN" by simp
  then have nanc: "\<forall>c \<in> set ?cs. alike c \<noteq> NaN" by simp
  have "sorted_wrt (\<lambda>a b. jle b a) (map prop_alike ?A)"
    using sorted_array_sort [OF nanR] by (simp add: sorted_wrt_map)
  moreover have "sorted_wrt (\<lambda>a b. jle b a) (map alike (ranked ?cs))"
    using descending_ranked [OF nanc] by (simp add: descending_def sorted_wrt_map)
  moreover have "mset (map prop_alike ?A) = mset (map alike (ranked ?cs))"
  proof -
    have "mset (map prop_alike ?A) = image_mset prop_alike (mset (map as_result ?cs))" by simp
    also have "\<dots> = image_mset alike (mset ?cs)" by (simp add: multiset.map_comp comp_def)
    also have "\<dots> = mset (map alike (ranked ?cs))" by simp
    finally show ?thesis .
  qed
  ultimately have scores: "map prop_alike ?A = map alike (ranked ?cs)"
    by (rule sorted_numbers_unique)
  have G_scores: "map prop_alike ?G = take (nat k) (map prop_alike ?A)"
    using scores by (simp add: take_map comp_def)
  have G_eq: "?G = take (nat k) ?A" if d: "distinct (map prop_alike ?A)"
  proof -
    from d have inj: "inj_on prop_alike (set ?A)" by (simp add: distinct_map)
    have "set (take (nat k) (ranked ?cs)) \<subseteq> set ?cs"
      using set_take_subset [of "nat k" "ranked ?cs"] by simp
    then have g: "set ?G \<subseteq> set ?A" by auto
    have t: "set (take (nat k) ?A) \<subseteq> set ?A" by (rule set_take_subset)
    have ij: "inj_on prop_alike (set ?G \<union> set (take (nat k) ?A))"
      by (rule inj_on_subset [OF inj Un_least [OF g t] ])
    have eq: "map prop_alike ?G = map prop_alike (take (nat k) ?A)"
      using G_scores by (simp add: take_map)
    from inj_on_map_eq_map [OF ij] eq show ?thesis by blast
  qed
  have G_len: "length ?G = min (nat k) (length ?X)"
    by (simp add: length_ranked min.commute)
  show ?thesis
  proof (cases "?X = []")
    case True
    with m k a have "getTop sentence a k s =
        Some (Inr (sentence, Suc (length (arrays s))), s\<lparr>arrays := arrays s @ [ [], [] ]\<rparr>)"
      by (simp add: getTop_def io_defs nth_append new_LinkedListInAlikeOrder_def LL_getArray_def
          getArray_loop.simps getTop_loop.simps)
    with True A' show ?thesis by (simp add: nth_append array_sort_def)
  next
    case False
    have ok': "\<forall>x \<in> set ?X. p x \<noteq> None" using ok tx by auto
    from False e1 have e: "p (Str sentence) = Some e1" by simp
    from getTop_result [OF m k a False e ok']
    obtain s2 where "getTop sentence a k s = Some (Inr (sentence, Suc (length (arrays s))), s2)"
      and "arrays s2 ! Suc (length (arrays s)) = ?G"
      by (auto simp: nth_append)
    with G_len G_scores G_eq A' show ?thesis by auto
  qed
qed


lemma cosine_same_axis: "calculateCosineSimilarity (Some [1, 0]) (Some [1, 0]) = Inr (Num 1)"
  by (simp add: calculateCosineSimilarity_def idx_def cosine_loop.simps del: calculate_cosine)

lemma cosine_other_axis: "calculateCosineSimilarity (Some [1, 0]) (Some [0, 1]) = Inr (Num 0)"
  by (simp add: calculateCosineSimilarity_def idx_def cosine_loop.simps del: calculate_cosine)

lemmas run_defs = compareSentenceToArray_def arrayInOrder_def io_defs classify_def call_model_def
  text_of_def similarity_of_def store_put_def array_put_def sort_in_place_def array_sort_def
  by_alike_def jsub_def compare_loop.simps getTop_def getTop_loop.simps
  cosine_same_axis cosine_other_axis

theorem arrayInOrder_sorts_witness:
  "0 < length (arrays \<lparr>model = Some axis_provider, arrays = [ [Str ''x'', Str ''b'', Str ''c''] ], trace = []\<rparr>) \<and>
   compareSentenceToArray ''a'' 0 False
       \<lparr>model = Some axis_provider, arrays = [ [Str ''x'', Str ''b'', Str ''c''] ], trace = []\<rparr>
     = (Inr (''a'', 1),
        \<lparr>model = Some axis_provider,
         arrays = [ [Str ''x'', Str ''b'', Str ''c''],
                   [Scored (Str ''x'') (Num 0), Scored (Str ''b'') (Num 1), Scored (Str ''c'') (Num 1)] ],
         trace = [Embed (Str ''a''), Embed (Str ''x''), Score, Embed (Str ''b''), Score,
                  Embed (Str ''c''), Score]\<rparr>) \<and>
   list_all (\<lambda>y. prop_alike y \<noteq> NaN)
     [Scored (Str ''x'') (Num 0), Scored (Str ''b'') (Num 1), Scored (Str ''c'') (Num 1)] \<and>
   (\<exists>s2. arrayInOrder ''a'' 0
            \<lparr>model = Some axis_provider, arrays = [ [Str ''x'', Str ''b'', Str ''c''] ], trace = []\<rparr>
          = (Inr (''a'', 2), s2) \<and>
        arrays s2 ! 2 = [Scored (Str ''b'') (Num 1), Scored (Str ''c'') (Num 1), Scored (Str ''x'') (Num 0)])"
  using arrayInOrder_sorts [of 0
      "\<lparr>model = Some axis_provider, arrays = [ [Str ''x'', Str ''b'', Str ''c''] ], trace = []\<rparr>"
      "''a''" "''a''" 1
      "\<lparr>model = Some axis_provider,
         arrays = [ [Str ''x'', Str ''b'', Str ''c''],
                   [Scored (Str ''x'') (Num 0), Scored (Str ''b'') (Num 1), Scored (Str ''c'') (Num 1)] ],
         trace = [Embed (Str ''a''), Embed (Str ''x''), Score, Embed (Str ''b''), Score,
                  Embed (Str ''c''), Score]\<rparr>"]
  by (simp add: run_defs del: calculate_cosine)

text \<open>
  The claim as stated fails when two candidates have the same score: \<open>arrayInOrder\<close>
  keeps them in the order of the input, \<open>getTop\<close> puts the later one first.
\<close>

theorem getTop_ties_counterexample:
  "arrayInOrder ''a'' 0 \<lparr>model = Some axis_provider, arrays = [ [Str ''b'', Str ''c''] ], trace = []\<rparr>
     = (Inr (''a'', 2),
        \<lparr>model = Some axis_provider,
         arrays = [ [Str ''b'', Str ''c''], [Str ''b'', Str ''c''],
                   [Scored (Str ''b'') (Num 1), Scored (Str ''c'') (Num 1)] ],
         trace = [Embed (Str ''a''), Embed (Str ''b''), Score, Embed (Str ''c''), Score]\<rparr>) \<and>
   getTop ''a'' 0 2 \<lparr>model = Some axis_provider, arrays = [ [Str ''b'', Str ''c''] ], trace = []\<rparr>
     = Some (Inr (''a'', 2),
        \<lparr>model = Some axis_provider,
         arrays = [ [Str ''b'', Str ''c''], [Str ''b'', Str ''c''],
                   [Scored (Str ''c'') (Num 1), Scored (Str ''b'') (Num 1)] ],
         trace = [Embed (Str ''a''), Embed (Str ''b''), Score, Embed (Str ''c''), Score]\<rparr>)"
  by (simp add: run_defs ranker_defs getIndex_loop.simps walk.simps del: calculate_cosine)

theorem getTop_prefix_of_arrayInOrder_witness:
  "0 < length (arrays \<lparr>model = Some axis_provider, arrays = [ [Str ''x'', Str ''b''] ], trace = []\<rparr>) \<and>
   arrays \<lparr>model = Some axis_provider, arrays = [ [Str ''x'', Str ''b''] ], trace = []\<rparr> ! 0
     = [Str ''x'', Str ''b''] \<and>
   (0::int) < 1 \<and>
   arrayInOrder ''a'' 0 \<lparr>model = Some axis_provider, arrays = [ [Str ''x'', Str ''b''] ], trace = []\<rparr>
     = (Inr (''a'', 2),
        \<lparr>model = Some axis_provider,
         arrays = [ [Str ''x'', Str ''b''], [Str ''x'', Str ''b''],
                   [Scored (Str ''b'') (Num 1), Scored (Str ''x'') (Num 0)] ],
         trace = [Embed (Str ''a''), Embed (Str ''x''), Score, Embed (Str ''b''), Score]\<rparr>) \<and>
   list_all (\<lambda>y. prop_alike y \<noteq> NaN) [Scored (Str ''b'') (Num 1), Scored (Str ''x'') (Num 0)] \<and>
   distinct (map prop_alike [Scored (Str ''b'') (Num 1), Scored (Str ''x'') (Num 0)]) \<and>
   (\<exists>s2. getTop ''a'' 0 1 \<lparr>model = Some axis_provider, arrays = [ [Str ''x'', Str ''b''] ], trace = []\<rparr>
          = Some (Inr (''a'', 2), s2) \<and>
        arrays s2 ! 2 = [Scored (Str ''b'') (Num 1)])"
  using getTop_prefix_of_arrayInOrder [of 0
      "\<lparr>model = Some axis_provider, arrays = [ [Str ''x'', Str ''b''] ], trace = []\<rparr>" 1
      "''a''" "''a''" 2
      "\<lparr>model = Some axis_provider,
         arrays = [ [Str ''x'', Str ''b''], [Str ''x'', Str ''b''],
                   [Scored (Str ''b'') (Num 1), Scored (Str ''x'') (Num 0)] ],
         trace = [Embed (Str ''a''), Embed (Str ''x''), Score, Embed (Str ''b''), Score]\<rparr>"]
  by (simp add: run_defs ranker_defs getIndex_loop.simps walk.simps del: calculate_cosine)

section \<open>When the scores are numbers\<close>

lemma cosine_loop_sums:
  "length e1 = length e2 \<Longrightarrow>
   cosine_loop e1 e2 i (Num d, Num m1, Num m2) =
     (Num (d + (\<Sum>k = i..<length e1. e1 ! k * e2 ! k)),
      Num (m1 + (\<Sum>k = i..<length e1. e1 ! k * e1 ! k)),
      Num (m2 + (\<Sum>k = i..<length e1. e2 ! k * e2 ! k)))"
proof (induction "length e1 - i" arbitrary: i d m1 m2)
  case 0
  then show ?case by (subst cosine_loop.simps) simp
next
  case (Suc n)
  then have i: "i < length e1" and n: "n = length e1 - (i + 1)" by simp_all
  from Suc.hyps(1) [OF n Suc.prems] i Suc.prems show ?case
    by (subst cosine_loop.simps) (simp add: idx_def sum.atLeast_Suc_lessThan add.assoc)
qed

lemma sum_squares_pos:
  assumes "x \<in> set e" and "x \<noteq> (0::real)"
  shows "0 < (\<Sum>k = 0..<length e. e ! k * e ! k)"
proof -
  from assms(1) obtain j where j: "j < length e" "e ! j = x" by (auto simp: in_set_conv_nth)
  have "0 < e ! j * e ! j" using j assms(2) by (auto simp: zero_less_mult_iff)
  also have "e ! j * e ! j \<le> (\<Sum>k = 0..<length e. e ! k * e ! k)"
    using j(1) by (intro member_le_sum) auto
  finally show ?thesis .
qed

text \<open>
  Two embeddings of the same length, neither of them the zero vector, have a similarity
  that is a number: the score is NaN only for a zero vector or for embeddings of
  different lengths.
\<close>

lemma cosine_is_number:
  assumes len: "length e1 = length e2"
    and nz1: "\<exists>x \<in> set e1. x \<noteq> 0" and nz2: "\<exists>x \<in> set e2. x \<noteq> 0"
  shows "\<exists>r. cosine e1 e2 = Num r"
proof -
  let ?n1 = "\<Sum>k = 0..<length e1. e1 ! k * e1 ! k"
  let ?n2 = "\<Sum>k = 0..<length e1. e2 ! k * e2 ! k"
  from nz1 have p1: "0 < ?n1" by (auto intro: sum_squares_pos)
  from nz2 len have p2: "0 < ?n2" by (auto intro: sum_squares_pos)
  from p1 p2 have "sqrt ?n1 * sqrt ?n2 \<noteq> 0" by simp
  with p1 p2 show ?thesis
    by (simp add: cosine_def cosine_loop_sums [OF len])
qed


text \<open>
  So the scores of \<open>compareSentenceToArray\<close> on uncached items are numbers whenever the
  provider keeps its contract: every embedding has the same length and is not the zero
  vector (the provider's embeddings are normalized).
\<close>

lemma compare_scores_are_numbers:
  assumes run: "compareSentenceToArray sentence a False s = (Inr (x, r), s1)"
    and a: "a < length (arrays s)"
    and m: "model s = Some p"
    and contract: "\<forall>t v. p t = Some v \<longrightarrow> length v = d \<and> (\<exists>c \<in> set v. c \<noteq> 0)"
  shows "\<forall>y \<in> set (arrays s1 ! r). prop_alike y \<noteq> NaN"
proof -
  from compare_result [OF run a] m
  obtain e1 where e1: "arrays s ! a \<noteq> [] \<longrightarrow> p (Str sentence) = Some e1"
    and ok: "\<forall>x \<in> set (arrays s ! a). p (text_of x) \<noteq> None"
    and r: "r = length (arrays s)"
    and R: "arrays s1 = arrays s @ [map (\<lambda>x. as_result (scored p e1 (text_of x))) (arrays s ! a)]"
    by auto
  have "prop_alike (as_result (scored p e1 (text_of x))) \<noteq> NaN" if x: "x \<in> set (arrays s ! a)" for x
  proof -
    from x e1 have s: "p (Str sentence) = Some e1" by auto
    from x ok obtain e2 where e2: "p (text_of x) = Some e2" by auto
    from contract s e2 have "length e1 = length e2" "\<exists>c \<in> set e1. c \<noteq> 0" "\<exists>c \<in> set e2. c \<noteq> 0"
      by auto
    from cosine_is_number [OF this] e2 show ?thesis by auto
  qed
  with R r show ?thesis by auto
qed

end
